theory Spec2Isabelle
  imports Main "HOL-Library.Sublist" "HOL-Library.Word"
begin

section \<open>Python strings\<close>

text \<open>
  A Python \<^verbatim>\<open>str\<close> is a sequence of Unicode code points, so it is modelled as a list of
  natural numbers (the code points), not as a list of bytes: two of the control tokens of
  \<^verbatim>\<open>clean_completion\<close> contain the code points U+FF5C and U+2581, which are one
  character each for \<^verbatim>\<open>str.replace\<close>. ASCII literals are written with \<open>ascii\<close>.
\<close>

type_synonym pystr = "nat list"

definition ascii :: "string \<Rightarrow> pystr" where
  "ascii s = map of_char s"

text \<open>
  \<^verbatim>\<open>str.strip()\<close> without argument and the regular expression class \<^verbatim>\<open>\s\<close> (on
  \<^verbatim>\<open>str\<close> patterns) both use CPython's \<^verbatim>\<open>Py_UNICODE_ISSPACE\<close>, whose table is this one.
\<close>

definition isspace :: "nat \<Rightarrow> bool" where
  "isspace c =
     ((9 \<le> c \<and> c \<le> 13) \<or> (28 \<le> c \<and> c \<le> 32) \<or> c = 133 \<or> c = 160 \<or> c = 5760 \<or>
      (8192 \<le> c \<and> c \<le> 8202) \<or> c = 8232 \<or> c = 8233 \<or> c = 8239 \<or> c = 8287 \<or>
      c = 12288)"

definition lstrip :: "pystr \<Rightarrow> pystr" where
  "lstrip s = dropWhile isspace s"

definition rstrip :: "pystr \<Rightarrow> pystr" where
  "rstrip s = rev (dropWhile isspace (rev s))"

definition strip :: "pystr \<Rightarrow> pystr" where
  "strip s = rstrip (lstrip s)"

text \<open>
  \<^verbatim>\<open>s.split("\n")\<close>: the pieces between the line feeds (code point 10); the result is
  never empty, and \<^verbatim>\<open>"".split("\n")\<close> is \<^verbatim>\<open>[""]\<close>.
\<close>

fun split_nl :: "pystr \<Rightarrow> pystr list" where
  "split_nl [] = [[]]"
| "split_nl (c # cs) =
     (if c = 10 then [] # split_nl cs
      else (case split_nl cs of [] \<Rightarrow> [[c]] | l # ls \<Rightarrow> (c # l) # ls))"

text \<open>
  \<^verbatim>\<open>s.replace(old, new)\<close>: the occurrences of \<open>old\<close> are found from left to right and do
  not overlap; the text is scanned once, so what the replacement joins is not looked at
  again. For an empty \<open>old\<close> Python puts \<open>new\<close> before every character and at the end.
\<close>

function str_replace :: "pystr \<Rightarrow> pystr \<Rightarrow> pystr \<Rightarrow> pystr" where
  "str_replace old new s =
     (if old = [] then new @ concat (map (\<lambda>c. c # new) s)
      else if s = [] then []
      else if prefix old s then new @ str_replace old new (drop (length old) s)
      else hd s # str_replace old new (tl s))"
  by pat_completeness auto
termination
  by (relation "measure (\<lambda>(old, new, s). length s)") auto

declare str_replace.simps [simp del]

section \<open>The text sanitizer\<close>

text \<open>
  The control tokens of \<^verbatim>\<open>clean_completion\<close>. The first three contain U+FF5C (fullwidth
  vertical line, 65372) and U+2581 (lower one eighth block, 9601); the last one is ASCII.
\<close>

definition fim_begin :: pystr where
  "fim_begin = [60, 65372] @ ascii ''fim'' @ [9601] @ ascii ''begin'' @ [65372, 62]"

definition fim_hole :: pystr where
  "fim_hole = [60, 65372] @ ascii ''fim'' @ [9601] @ ascii ''hole'' @ [65372, 62]"

definition fim_end :: pystr where
  "fim_end = [60, 65372] @ ascii ''fim'' @ [9601] @ ascii ''end'' @ [65372, 62]"

definition endoftext :: pystr where
  "endoftext = ascii ''<|endoftext|>''"

definition control_tokens :: "pystr list" where
  "control_tokens = [fim_begin, fim_hole, fim_end, endoftext]"

text \<open>The fence marker, three backquotes (code point 96).\<close>

definition fence :: pystr where
  "fence = [96, 96, 96]"

text \<open>
  The class \<^verbatim>\<open>["\',`\s]\<close> of the regular expression in \<^verbatim>\<open>clean_completion\<close>: the double
  quote, the single quote, the comma, the backquote and the whitespace. The expression is
  anchored at the start of the text, so \<^verbatim>\<open>re.sub\<close> removes the longest leading run of
  these characters.
\<close>

definition lead_class :: "nat \<Rightarrow> bool" where
  "lead_class c = (c = 34 \<or> c = 39 \<or> c = 44 \<or> c = 96 \<or> isspace c)"

definition clean_completion :: "pystr \<Rightarrow> pystr \<Rightarrow> pystr" where
  "clean_completion completion current_line_before_cursor =
     (let c1 = foldl (\<lambda>s token. str_replace token [] s) completion control_tokens;
          c2 = strip (str_replace fence [] (str_replace (fence @ ascii ''python'') [] c1));
          cur = strip current_line_before_cursor;
          c3 = (if cur \<noteq> [] \<and> prefix cur c2 then strip (drop (length cur) c2) else c2);
          c4 = dropWhile lead_class c3;
          c5 = hd (split_nl c4)
      in strip c5)"

text \<open>
  \<^verbatim>\<open>_extract_code\<close> searches with two regular expressions. Both start with
  \<^verbatim>\<open>```(?:python)?\n\<close>, which matches at the start of a text that begins with the fence,
  then \<^verbatim>\<open>python\<close> or nothing, then a line feed; \<open>match_open\<close> gives what follows the
  match. In the first expression the lazy group \<^verbatim>\<open>(.*?)\<close> (with \<^verbatim>\<open>re.DOTALL\<close>) followed
  by the fence takes the text up to the first fence that follows; \<open>lazy_until\<close> gives the
  group. \<^verbatim>\<open>re.search\<close> tries the start positions from left to right.
\<close>

definition match_open :: "pystr \<Rightarrow> pystr option" where
  "match_open s =
     (if prefix (fence @ ascii ''python'' @ [10]) s
        then Some (drop (length (fence @ ascii ''python'' @ [10])) s)
      else if prefix (fence @ [10]) s then Some (drop (length (fence @ [10])) s)
      else None)"

fun lazy_until :: "pystr \<Rightarrow> pystr \<Rightarrow> pystr option" where
  "lazy_until tok [] = (if tok = [] then Some [] else None)"
| "lazy_until tok (c # cs) =
     (if prefix tok (c # cs) then Some []
      else map_option ((#) c) (lazy_until tok cs))"

text \<open>
  \<^verbatim>\<open>re.search(r"```(?:python)?\n(.*?)```", content, re.DOTALL)\<close>: group 1 of the leftmost
  match, if there is one.
\<close>

fun search_closed :: "pystr \<Rightarrow> pystr option" where
  "search_closed [] = None"
| "search_closed (c # cs) =
     (case match_open (c # cs) of
        None \<Rightarrow> search_closed cs
      | Some r \<Rightarrow> (case lazy_until fence r of
                    None \<Rightarrow> search_closed cs
                  | Some g \<Rightarrow> Some g))"

text \<open>\<^verbatim>\<open>re.search(r"```(?:python)?\n(.*)", content, re.DOTALL)\<close>: group 1 is the rest.\<close>

fun search_open :: "pystr \<Rightarrow> pystr option" where
  "search_open [] = None"
| "search_open (c # cs) =
     (case match_open (c # cs) of
        None \<Rightarrow> search_open cs
      | Some r \<Rightarrow> Some r)"

definition extract_code :: "pystr \<Rightarrow> pystr" where
  "extract_code content =
     (case search_closed content of
        Some g \<Rightarrow> strip g
      | None \<Rightarrow> (case search_open content of
                   Some g \<Rightarrow> strip g
                 | None \<Rightarrow> strip content))"

text \<open>
  \<^verbatim>\<open>_clean_code_lines\<close>. What its loop does with one line: \<open>None\<close> when the line is skipped
  (\<^verbatim>\<open>continue\<close>), otherwise what is appended to \<^verbatim>\<open>clean\<close>. \<^verbatim>\<open>str.isupper\<close> on the one
  character \<^verbatim>\<open>s[0]\<close> reads Unicode's table of uppercase letters, which is the parameter
  \<open>isupper\<close>; \<open>ascii_isupper\<close> is that table on ASCII.
\<close>

definition ascii_isupper :: "nat \<Rightarrow> bool" where
  "ascii_isupper c = (65 \<le> c \<and> c \<le> 90)"

definition code_marks :: "pystr list" where
  "code_marks = map ascii [''='', ''('', '')'', ''.'', ''['', '']'', '':'', ''#'']"

definition clean_line :: "(nat \<Rightarrow> bool) \<Rightarrow> pystr \<Rightarrow> pystr option" where
  "clean_line isupper line =
     (let s = strip line in
      if s = [] then Some []
      else if prefix fence s then None
      else if prefix (ascii ''import '') s \<or> prefix (ascii ''from '') s then None
      else if sublist (ascii ''read_csv'') s then None
      else
        (let has_code = list_ex (\<lambda>c. sublist c s) code_marks;
             is_comment = prefix (ascii ''#'') s;
             is_prose = ((isupper (hd s) \<and> \<not> has_code) \<or>
                         suffix (ascii ''...'') s \<or> suffix (ascii ''?'') s \<or>
                         suffix (ascii ''!'') s)
         in if is_prose \<and> \<not> is_comment then None else Some line))"

definition clean_code_lines :: "(nat \<Rightarrow> bool) \<Rightarrow> pystr \<Rightarrow> pystr list \<Rightarrow> pystr list" where
  "clean_code_lines isupper generated all_lines =
     (let clean = List.map_filter (clean_line isupper) (split_nl generated);
          existing = set (filter (\<lambda>s. s \<noteq> []) (map strip all_lines))
      in filter (\<lambda>l. strip l \<notin> existing) clean)"

section \<open>The stored state\<close>

text \<open>
  What \<^verbatim>\<open>json.load\<close> returns: \<^verbatim>\<open>None\<close>, a bool, an int, a float (kept as its 64 bits),
  a str, a list or a dict. A dict keeps its keys in insertion order, so it is an
  association list; a key is looked up with \<open>map_of\<close>.
\<close>

datatype json =
    JNull
  | JBool bool
  | JInt int
  | JFloat "64 word"
  | JStr pystr
  | JArr "json list"
  | JObj "(pystr \<times> json) list"

text \<open>\<^verbatim>\<open>d[k] = v\<close> on a dict: an existing key keeps its place, a new key goes last.\<close>

fun dict_set :: "'k \<Rightarrow> 'v \<Rightarrow> ('k \<times> 'v) list \<Rightarrow> ('k \<times> 'v) list" where
  "dict_set k v [] = [(k, v)]"
| "dict_set k v ((k', v') # kvs) =
     (if k' = k then (k, v) # kvs else (k', v') # dict_set k v kvs)"

text \<open>Python's truth value of such a value (\<^verbatim>\<open>if entry\<close>).\<close>

fun truthy :: "json \<Rightarrow> bool" where
  "truthy JNull = False"
| "truthy (JBool b) = b"
| "truthy (JInt i) = (i \<noteq> 0)"
| "truthy (JFloat w) = (w \<noteq> 0 \<and> w \<noteq> 0x8000000000000000)"
| "truthy (JStr s) = (s \<noteq> [])"
| "truthy (JArr xs) = (xs \<noteq> [])"
| "truthy (JObj kvs) = (kvs \<noteq> [])"

text \<open>The exceptions (all subclasses of \<^verbatim>\<open>Exception\<close>) that the modelled code can meet.\<close>

datatype error = AttributeError | TypeError | OSError | JSONDecodeError

text \<open>
  The backing file \<^verbatim>\<open>CONTEXT_FILE\<close>: missing, there but not readable (\<^verbatim>\<open>open\<close> or the read
  raises), or holding a text.
\<close>

datatype backing_file = Missing | Unreadable | Holds pystr

record turn =
  role :: pystr
  content :: pystr

text \<open>
  The module's globals \<^verbatim>\<open>_turn_history\<close>, \<^verbatim>\<open>_snippet_cache\<close> and \<^verbatim>\<open>_disk_context\<close>, and
  the backing file.
\<close>

record state =
  turn_history :: "turn list"
  snippet_cache :: "pystr \<rightharpoonup> pystr"
  disk_context :: json
  context_file :: backing_file

section \<open>The turn log\<close>

definition MAX_TURNS :: nat where
  "MAX_TURNS = 10"

definition add_turn :: "state \<Rightarrow> pystr \<Rightarrow> pystr \<Rightarrow> state" where
  "add_turn st r c =
     (let h = turn_history st @ [\<lparr>role = r, content = c\<rparr>];
          max_items = MAX_TURNS * 2
      in st\<lparr>turn_history := (if length h > max_items then tl h else h)\<rparr>)"

text \<open>A sequence of \<^verbatim>\<open>add_turn\<close> calls, each given by its role and its content.\<close>

fun add_turns :: "state \<Rightarrow> (pystr \<times> pystr) list \<Rightarrow> state" where
  "add_turns st [] = st"
| "add_turns st ((r, c) # calls) = add_turns (add_turn st r c) calls"

definition mk_turn :: "pystr \<times> pystr \<Rightarrow> turn" where
  "mk_turn rc = \<lparr>role = fst rc, content = snd rc\<rparr>"

text \<open>\<^verbatim>\<open>xs[-n:]\<close>, the last \<open>n\<close> elements (all of them when there are fewer), for \<open>n > 0\<close>.\<close>

definition last_n :: "nat \<Rightarrow> 'a list \<Rightarrow> 'a list" where
  "last_n n xs = drop (length xs - n) xs"

definition get_history_messages :: "state \<Rightarrow> pystr \<Rightarrow> turn list" where
  "get_history_messages st system_prompt =
     [\<lparr>role = ascii ''system'', content = system_prompt\<rparr>]
       @ last_n (MAX_TURNS * 2) (turn_history st)"

text \<open>The 25 calls of the scenario: the roles alternate, starting with the user.\<close>

fun alternating :: "bool \<Rightarrow> pystr list \<Rightarrow> (pystr \<times> pystr) list" where
  "alternating u [] = []"
| "alternating u (c # cs) =
     ((if u then ascii ''user'' else ascii ''assistant''), c) # alternating (\<not> u) cs"

section \<open>The persisted context and the snippet cache\<close>

definition empty_context :: json where
  "empty_context = JObj [(ascii ''snippets'', JObj []), (ascii ''file_summaries'', JObj [])]"

definition path_exists :: "backing_file \<Rightarrow> bool" where
  "path_exists f = (f \<noteq> Missing)"

text \<open>\<^verbatim>\<open>open(CONTEXT_FILE)\<close> and the read of the whole text.\<close>

fun read_text :: "backing_file \<Rightarrow> error + pystr" where
  "read_text Missing = Inl OSError"
| "read_text Unreadable = Inl OSError"
| "read_text (Holds t) = Inr t"

text \<open>
  \<^verbatim>\<open>_load_context\<close>. The parser of the \<^verbatim>\<open>json\<close> library is the parameter
  \<open>json_loads\<close>; it raises (\<open>Inl\<close>) on a text that is not JSON. The \<^verbatim>\<open>try\<close> covers the
  open, the read and the parse, and its handler falls through to the last \<^verbatim>\<open>return\<close>.
  The result is a sum so that a propagated exception would be a value \<open>Inl\<close>.
\<close>

definition load_context :: "(pystr \<Rightarrow> error + json) \<Rightarrow> backing_file \<Rightarrow> error + json" where
  "load_context json_loads f =
     (if path_exists f then
        (case (case read_text f of Inl e \<Rightarrow> Inl e | Inr t \<Rightarrow> json_loads t) of
           Inr ctx \<Rightarrow> Inr ctx
         | Inl e \<Rightarrow> Inr empty_context)
      else Inr empty_context)"

text \<open>
  What the file system does during one \<^verbatim>\<open>_save_context\<close>: \<^verbatim>\<open>os.makedirs\<close> raises (it is
  outside the \<^verbatim>\<open>try\<close>, so the exception propagates), or \<^verbatim>\<open>open(..., "w")\<close> raises and the
  file stays as it was, or \<^verbatim>\<open>json.dump\<close> raises after the file was opened and leaves the
  file in the given condition, or the whole text is written.
\<close>

datatype save_io = MakedirsRaises | OpenRaises | DumpRaises backing_file | Written

text \<open>
  \<^verbatim>\<open>_save_context\<close>: the propagated exception, if any, and the file afterwards. The
  serializer \<^verbatim>\<open>json.dump(ctx, f, indent=2)\<close> is the parameter \<open>json_dumps\<close>.
\<close>

definition save_context ::
    "(json \<Rightarrow> pystr) \<Rightarrow> save_io \<Rightarrow> backing_file \<Rightarrow> json \<Rightarrow> error option \<times> backing_file" where
  "save_context json_dumps io f ctx =
     (case io of
        MakedirsRaises \<Rightarrow> (Some OSError, f)
      | OpenRaises \<Rightarrow> (None, f)
      | DumpRaises f' \<Rightarrow> (None, f')
      | Written \<Rightarrow> (None, Holds (json_dumps ctx)))"

text \<open>
  \<^verbatim>\<open>d.setdefault(k, dflt)\<close>: the dict afterwards and the value returned; only a dict has
  the method.
\<close>

definition setdefault :: "pystr \<Rightarrow> json \<Rightarrow> json \<Rightarrow> error + json \<times> json" where
  "setdefault k dflt d =
     (case d of
        JObj kvs \<Rightarrow> (case map_of kvs k of
                       Some v \<Rightarrow> Inr (d, v)
                     | None \<Rightarrow> Inr (JObj (dict_set k dflt kvs), dflt))
      | _ \<Rightarrow> Inl AttributeError)"

text \<open>\<^verbatim>\<open>x[k] = v\<close> with a str \<open>k\<close>: only a dict accepts it.\<close>

definition setitem :: "pystr \<Rightarrow> json \<Rightarrow> json \<Rightarrow> error + json" where
  "setitem k v x =
     (case x of JObj kvs \<Rightarrow> Inr (JObj (dict_set k v kvs)) | _ \<Rightarrow> Inl TypeError)"

text \<open>
  \<^verbatim>\<open>_disk_context.setdefault(name, {})[k] = v\<close>: the context afterwards and the exception
  raised, if any. The table returned by \<^verbatim>\<open>setdefault\<close> is the object stored in the
  context, so the new item is seen there: the model writes the table back under \<open>name\<close>.
\<close>

definition table_store :: "pystr \<Rightarrow> pystr \<Rightarrow> json \<Rightarrow> json \<Rightarrow> json \<times> error option" where
  "table_store name k v d =
     (case setdefault name (JObj []) d of
        Inl e \<Rightarrow> (d, Some e)
      | Inr (d', tbl) \<Rightarrow>
          (case setitem k v tbl of
             Inl e \<Rightarrow> (d', Some e)
           | Inr tbl' \<Rightarrow>
               (case d' of
                  JObj kvs \<Rightarrow> (JObj (dict_set name tbl' kvs), None)
                | _ \<Rightarrow> (d', None))))"

text \<open>
  \<^verbatim>\<open>cache_snippet\<close> and \<^verbatim>\<open>store_file_summary\<close>: the propagated exception, if any, and the
  state afterwards. \<open>now\<close> is what \<^verbatim>\<open>time.strftime\<close> returns.
\<close>

definition cache_snippet ::
    "(json \<Rightarrow> pystr) \<Rightarrow> save_io \<Rightarrow> pystr \<Rightarrow> state \<Rightarrow> pystr \<Rightarrow> pystr \<Rightarrow> error option \<times> state" where
  "cache_snippet json_dumps io now st comment code =
     (let st1 = st\<lparr>snippet_cache := (snippet_cache st)(comment \<mapsto> code)\<rparr>;
          entry = JObj [(ascii ''code'', JStr code), (ascii ''timestamp'', JStr now)];
          (ctx, err) = table_store (ascii ''snippets'') comment entry (disk_context st1);
          st2 = st1\<lparr>disk_context := ctx\<rparr>
      in case err of
           Some e \<Rightarrow> (Some e, st2)
         | None \<Rightarrow>
             (let (r, f) = save_context json_dumps io (context_file st2) ctx
              in (r, st2\<lparr>context_file := f\<rparr>)))"

definition store_file_summary ::
    "(json \<Rightarrow> pystr) \<Rightarrow> save_io \<Rightarrow> pystr \<Rightarrow> state \<Rightarrow> pystr \<Rightarrow> pystr \<Rightarrow> error option \<times> state" where
  "store_file_summary json_dumps io now st filepath summary =
     (let entry = JObj [(ascii ''summary'', JStr summary), (ascii ''timestamp'', JStr now)];
          (ctx, err) = table_store (ascii ''file_summaries'') filepath entry (disk_context st);
          st2 = st\<lparr>disk_context := ctx\<rparr>
      in case err of
           Some e \<Rightarrow> (Some e, st2)
         | None \<Rightarrow>
             (let (r, f) = save_context json_dumps io (context_file st2) ctx
              in (r, st2\<lparr>context_file := f\<rparr>)))"

text \<open>\<^verbatim>\<open>d.get(k, dflt)\<close>; \<^verbatim>\<open>d.get(k)\<close> has the default \<^verbatim>\<open>None\<close>, which is \<open>JNull\<close>.\<close>

definition dict_get :: "pystr \<Rightarrow> json \<Rightarrow> json \<Rightarrow> error + json" where
  "dict_get k dflt d =
     (case d of
        JObj kvs \<Rightarrow> (case map_of kvs k of Some v \<Rightarrow> Inr v | None \<Rightarrow> Inr dflt)
      | _ \<Rightarrow> Inl AttributeError)"

text \<open>
  \<^verbatim>\<open>get_cached_snippet\<close>: the value returned (\<open>JNull\<close> for \<^verbatim>\<open>None\<close>) or the exception
  raised. The in-memory cache is asked first.
\<close>

definition get_cached_snippet :: "state \<Rightarrow> pystr \<Rightarrow> error + json" where
  "get_cached_snippet st comment =
     (case snippet_cache st comment of
        Some code \<Rightarrow> Inr (JStr code)
      | None \<Rightarrow>
          (case dict_get (ascii ''snippets'') (JObj []) (disk_context st) of
             Inl e \<Rightarrow> Inl e
           | Inr tbl \<Rightarrow>
               (case dict_get comment JNull tbl of
                  Inl e \<Rightarrow> Inl e
                | Inr entry \<Rightarrow>
                    (if truthy entry then dict_get (ascii ''code'') JNull entry
                     else Inr JNull))))"

text \<open>The two tables of the persisted context, as the program reads them.\<close>

definition snippets_of :: "json \<Rightarrow> error + json" where
  "snippets_of d = dict_get (ascii ''snippets'') (JObj []) d"

definition file_summaries_of :: "json \<Rightarrow> error + json" where
  "file_summaries_of d = dict_get (ascii ''file_summaries'') (JObj []) d"

section \<open>The json library\<close>

text \<open>
  \<^verbatim>\<open>_save_context\<close> writes with \<^verbatim>\<open>json.dump(ctx, f, indent=2)\<close> and \<^verbatim>\<open>_load_context\<close>
  reads with \<^verbatim>\<open>json.load(f)\<close>. Both are modelled on the values of type \<open>json\<close>, from
  the library's encoder (\<^verbatim>\<open>ensure_ascii\<close> is on by default) and from its scanner (the
  accelerated one, \<^verbatim>\<open>c_make_scanner\<close> and \<^verbatim>\<open>c_scanstring\<close>). Two things are left to
  parameters: the text of an int or a float (\<open>nt\<close>) and the scanning of a number
  (\<open>mn\<close>). The recursion limit of the interpreter is not modelled, and every error of
  the scanner is the one value \<open>JSONDecodeError\<close>.
\<close>

subsection \<open>Strings\<close>

text \<open>
  The encoder keeps the printable ASCII characters but the double quote and the
  backslash, writes seven characters with a two-character escape and every other
  character as a backslash, \<^verbatim>\<open>u\<close> and four lower-case hexadecimal digits; a character
  above U+FFFF is written as the two escapes of its surrogate pair.
\<close>

definition is_high :: "nat \<Rightarrow> bool" where
  "is_high c = (55296 \<le> c \<and> c \<le> 56319)"

definition is_low :: "nat \<Rightarrow> bool" where
  "is_low c = (56320 \<le> c \<and> c \<le> 57343)"

definition join_surrogates :: "nat \<Rightarrow> nat \<Rightarrow> nat" where
  "join_surrogates h l = 65536 + (h - 55296) * 1024 + (l - 56320)"

definition hexdigit :: "nat \<Rightarrow> nat" where
  "hexdigit d = (if d < 10 then 48 + d else 87 + d)"

definition hex4 :: "nat \<Rightarrow> pystr" where
  "hex4 n = [hexdigit (n div 4096 mod 16), hexdigit (n div 256 mod 16),
     hexdigit (n div 16 mod 16), hexdigit (n mod 16)]"

definition escape_char :: "nat \<Rightarrow> pystr" where
  "escape_char c =
     (if c = 34 then [92, 34]
      else if c = 92 then [92, 92]
      else if c = 10 then [92, 110]
      else if c = 13 then [92, 114]
      else if c = 9 then [92, 116]
      else if c = 8 then [92, 98]
      else if c = 12 then [92, 102]
      else if 32 \<le> c \<and> c \<le> 126 then [c]
      else if c < 65536 then [92, 117] @ hex4 c
      else [92, 117] @ hex4 (55296 + (c - 65536) div 1024 mod 1024) @
           [92, 117] @ hex4 (56320 + (c - 65536) mod 1024))"

definition encode_string :: "pystr \<Rightarrow> pystr" where
  "encode_string s = [34] @ concat (map escape_char s) @ [34]"

text \<open>
  The scanner of a string, \<^verbatim>\<open>scanstring\<close> in strict mode, started after the opening
  quote: the characters read and the text after the closing quote, or \<open>None\<close> for an
  error (no closing quote, a control character, a wrong escape).
\<close>

definition unhex :: "nat \<Rightarrow> nat option" where
  "unhex c =
     (if 48 \<le> c \<and> c \<le> 57 then Some (c - 48)
      else if 97 \<le> c \<and> c \<le> 102 then Some (c - 87)
      else if 65 \<le> c \<and> c \<le> 70 then Some (c - 55)
      else None)"

definition unhex4 :: "nat \<Rightarrow> nat \<Rightarrow> nat \<Rightarrow> nat \<Rightarrow> nat option" where
  "unhex4 a b c d =
     (case (unhex a, unhex b, unhex c, unhex d) of
        (Some x, Some y, Some z, Some w) \<Rightarrow> Some (((x * 16 + y) * 16 + z) * 16 + w)
      | _ \<Rightarrow> None)"

definition unescape :: "nat \<Rightarrow> nat option" where
  "unescape e =
     (if e = 34 then Some 34
      else if e = 92 then Some 92
      else if e = 47 then Some 47
      else if e = 98 then Some 8
      else if e = 102 then Some 12
      else if e = 110 then Some 10
      else if e = 114 then Some 13
      else if e = 116 then Some 9
      else None)"

definition push :: "nat \<Rightarrow> (pystr \<times> pystr) option \<Rightarrow> (pystr \<times> pystr) option" where
  "push c res = map_option (\<lambda>(t, r). (c # t, r)) res"

text \<open>
  After the escape of a high surrogate the scanner looks at the next six characters: a
  second escape, of a low surrogate, is joined with the first; a second escape with a
  wrong digit is an error; anything else is left for the next round.
\<close>

datatype ahead = BadEscape | LowSurrogate nat | NoSurrogate

definition low_ahead :: "pystr \<Rightarrow> ahead" where
  "low_ahead r =
     (case r of
        x # y # a # b # c # d # r' \<Rightarrow>
          (if x = 92 \<and> y = 117 then
             (case unhex4 a b c d of
                None \<Rightarrow> BadEscape
              | Some n \<Rightarrow> if is_low n then LowSurrogate n else NoSurrogate)
           else NoSurrogate)
      | _ \<Rightarrow> NoSurrogate)"

function scanstring :: "pystr \<Rightarrow> (pystr \<times> pystr) option" where
  "scanstring [] = None"
| "scanstring (c # cs) =
     (if c = 34 then Some ([], cs)
      else if c = 92 then
        (case cs of
           [] \<Rightarrow> None
         | e # es \<Rightarrow>
             (if e = 117 then
                (case es of
                   a # b # c' # d # r \<Rightarrow>
                     (case unhex4 a b c' d of
                        None \<Rightarrow> None
                      | Some n \<Rightarrow>
                          (if is_high n then
                             (case low_ahead r of
                                BadEscape \<Rightarrow> None
                              | LowSurrogate l \<Rightarrow>
                                  push (join_surrogates n l) (scanstring (drop 6 r))
                              | NoSurrogate \<Rightarrow> push n (scanstring r))
                           else push n (scanstring r)))
                 | _ \<Rightarrow> None)
              else (case unescape e of
                      None \<Rightarrow> None
                    | Some u \<Rightarrow> push u (scanstring es))))
      else if c < 32 then None
      else push c (scanstring cs))"
  by pat_completeness auto
termination
  by (relation "measure length") auto

declare scanstring.simps [simp del]

text \<open>
  What a string becomes when it is written and read back: a high surrogate directly
  followed by a low surrogate is read as the one character of the pair. A Python string
  holds code points below \<open>0x110000\<close>.
\<close>

fun join_pairs :: "pystr \<Rightarrow> pystr" where
  "join_pairs (h # l # t) =
     (if is_high h \<and> is_low l then join_surrogates h l # join_pairs t
      else h # join_pairs (l # t))"
| "join_pairs [c] = [c]"
| "join_pairs [] = []"

definition py_text :: "pystr \<Rightarrow> bool" where
  "py_text s = list_all (\<lambda>c. c < 1114112) s"

subsection \<open>Values\<close>

text \<open>
  The encoder with \<^verbatim>\<open>indent=2\<close>: the items of a list or dict stand on lines of their
  own, indented by two spaces per level, separated by a comma; a key is followed by a
  colon and a space; an empty list or dict is \<^verbatim>\<open>[]\<close> or \<^verbatim>\<open>{}\<close>.
\<close>

definition is_ws :: "nat \<Rightarrow> bool" where
  "is_ws c = (c = 32 \<or> c = 9 \<or> c = 10 \<or> c = 13)"

definition skip_ws :: "pystr \<Rightarrow> pystr" where
  "skip_ws s = dropWhile is_ws s"

definition indent_nl :: "nat \<Rightarrow> pystr" where
  "indent_nl lvl = 10 # replicate (2 * lvl) 32"

fun dumps_at :: "(json \<Rightarrow> pystr) \<Rightarrow> nat \<Rightarrow> json \<Rightarrow> pystr"
  and dumps_elements :: "(json \<Rightarrow> pystr) \<Rightarrow> nat \<Rightarrow> json list \<Rightarrow> pystr"
  and dumps_members :: "(json \<Rightarrow> pystr) \<Rightarrow> nat \<Rightarrow> (pystr \<times> json) list \<Rightarrow> pystr" where
  "dumps_at nt lvl JNull = ascii ''null''"
| "dumps_at nt lvl (JBool b) = (if b then ascii ''true'' else ascii ''false'')"
| "dumps_at nt lvl (JInt i) = nt (JInt i)"
| "dumps_at nt lvl (JFloat w) = nt (JFloat w)"
| "dumps_at nt lvl (JStr s) = encode_string s"
| "dumps_at nt lvl (JArr xs) =
     (if xs = [] then ascii ''[]''
      else [91] @ indent_nl (Suc lvl) @ dumps_elements nt (Suc lvl) xs @ indent_nl lvl @ [93])"
| "dumps_at nt lvl (JObj kvs) =
     (if kvs = [] then ascii ''{}''
      else [123] @ indent_nl (Suc lvl) @ dumps_members nt (Suc lvl) kvs @ indent_nl lvl @ [125])"
| "dumps_elements nt lvl [] = []"
| "dumps_elements nt lvl (x # xs) =
     dumps_at nt lvl x @
     (if xs = [] then [] else [44] @ indent_nl lvl @ dumps_elements nt lvl xs)"
| "dumps_members nt lvl [] = []"
| "dumps_members nt lvl ((k, v) # kvs) =
     encode_string k @ [58, 32] @ dumps_at nt lvl v @
     (if kvs = [] then [] else [44] @ indent_nl lvl @ dumps_members nt lvl kvs)"

definition py_dumps :: "(json \<Rightarrow> pystr) \<Rightarrow> json \<Rightarrow> pystr" where
  "py_dumps nt d = dumps_at nt 0 d"

text \<open>
  The scanner, \<^verbatim>\<open>scan_once\<close>, with the loops of \<^verbatim>\<open>_parse_object\<close> and
  \<^verbatim>\<open>_parse_array\<close>: the value read and the text after it. A dict is filled in the
  order of the text and a repeated key keeps its place and takes the last value. The
  argument after \<open>mn\<close> bounds the number of nested calls; \<open>py_loads\<close> gives the
  length of the text, which is enough for every text since each call reads a character.
  \<^verbatim>\<open>json.loads\<close> refuses a text that starts with a byte order mark and a text with
  anything but whitespace after the value.
\<close>

definition nan_bits :: "64 word" where
  "nan_bits = 0x7FF8000000000000"

definition inf_bits :: "64 word" where
  "inf_bits = 0x7FF0000000000000"

definition neg_inf_bits :: "64 word" where
  "neg_inf_bits = 0xFFF0000000000000"

fun scan_once :: "(pystr \<Rightarrow> (json \<times> pystr) option) \<Rightarrow> nat \<Rightarrow> pystr \<Rightarrow> (json \<times> pystr) option"
  and parse_members ::
    "(pystr \<Rightarrow> (json \<times> pystr) option) \<Rightarrow> nat \<Rightarrow> (pystr \<times> json) list \<Rightarrow> pystr \<Rightarrow>
      (json \<times> pystr) option"
  and parse_elements ::
    "(pystr \<Rightarrow> (json \<times> pystr) option) \<Rightarrow> nat \<Rightarrow> json list \<Rightarrow> pystr \<Rightarrow>
      (json \<times> pystr) option" where
  "scan_once mn 0 s = None"
| "scan_once mn (Suc n) s =
     (case s of
        [] \<Rightarrow> None
      | c # cs \<Rightarrow>
          (if c = 34 then map_option (\<lambda>(t, r). (JStr t, r)) (scanstring cs)
           else if c = 123 then
             (case skip_ws cs of
                [] \<Rightarrow> None
              | d # r \<Rightarrow> if d = 125 then Some (JObj [], r) else parse_members mn n [] (d # r))
           else if c = 91 then
             (case skip_ws cs of
                [] \<Rightarrow> None
              | d # r \<Rightarrow> if d = 93 then Some (JArr [], r) else parse_elements mn n [] (d # r))
           else if prefix (ascii ''null'') s then Some (JNull, drop 4 s)
           else if prefix (ascii ''true'') s then Some (JBool True, drop 4 s)
           else if prefix (ascii ''false'') s then Some (JBool False, drop 5 s)
           else if prefix (ascii ''NaN'') s then Some (JFloat nan_bits, drop 3 s)
           else if prefix (ascii ''Infinity'') s then Some (JFloat inf_bits, drop 8 s)
           else if prefix (ascii ''-Infinity'') s then Some (JFloat neg_inf_bits, drop 9 s)
           else mn s))"
| "parse_members mn 0 acc s = None"
| "parse_members mn (Suc n) acc s =
     (case s of
        [] \<Rightarrow> None
      | q # s1 \<Rightarrow>
          (if q \<noteq> 34 then None
           else
             (case scanstring s1 of
                None \<Rightarrow> None
              | Some (k, s2) \<Rightarrow>
                  (case skip_ws s2 of
                     [] \<Rightarrow> None
                   | colon # s3 \<Rightarrow>
                       (if colon \<noteq> 58 then None
                        else
                          (case scan_once mn n (skip_ws s3) of
                             None \<Rightarrow> None
                           | Some (v, s4) \<Rightarrow>
                               (case skip_ws s4 of
                                  [] \<Rightarrow> None
                                | d # s5 \<Rightarrow>
                                    (if d = 125 then Some (JObj (dict_set k v acc), s5)
                                     else if d = 44
                                       then parse_members mn n (dict_set k v acc) (skip_ws s5)
                                     else None))))))))"
| "parse_elements mn 0 acc s = None"
| "parse_elements mn (Suc n) acc s =
     (case scan_once mn n s of
        None \<Rightarrow> None
      | Some (v, s1) \<Rightarrow>
          (case skip_ws s1 of
             [] \<Rightarrow> None
           | d # s2 \<Rightarrow>
               (if d = 93 then Some (JArr (acc @ [v]), s2)
                else if d = 44 then parse_elements mn n (acc @ [v]) (skip_ws s2)
                else None)))"

definition py_loads :: "(pystr \<Rightarrow> (json \<times> pystr) option) \<Rightarrow> pystr \<Rightarrow> error + json" where
  "py_loads mn s =
     (if prefix [65279] s then Inl JSONDecodeError
      else
        (case scan_once mn (Suc (length s)) (skip_ws s) of
           None \<Rightarrow> Inl JSONDecodeError
         | Some (v, r) \<Rightarrow> if skip_ws r = [] then Inr v else Inl JSONDecodeError))"

text \<open>
  The value read back from the text of a value, and the values for which this is proved
  below: strings and dicts of them whose keys stay distinct when read back.
\<close>

fun joined :: "json \<Rightarrow> json"
  and joined_elements :: "json list \<Rightarrow> json list"
  and joined_members :: "(pystr \<times> json) list \<Rightarrow> (pystr \<times> json) list" where
  "joined (JStr s) = JStr (join_pairs s)"
| "joined (JArr xs) = JArr (joined_elements xs)"
| "joined (JObj kvs) = JObj (joined_members kvs)"
| "joined JNull = JNull"
| "joined (JBool b) = JBool b"
| "joined (JInt i) = JInt i"
| "joined (JFloat w) = JFloat w"
| "joined_elements [] = []"
| "joined_elements (x # xs) = joined x # joined_elements xs"
| "joined_members [] = []"
| "joined_members ((k, v) # kvs) = (join_pairs k, joined v) # joined_members kvs"

fun readable :: "json \<Rightarrow> bool"
  and readable_members :: "(pystr \<times> json) list \<Rightarrow> bool" where
  "readable (JStr s) = py_text s"
| "readable (JObj kvs) = (distinct (map (join_pairs \<circ> fst) kvs) \<and> readable_members kvs)"
| "readable JNull = False"
| "readable (JBool b) = False"
| "readable (JInt i) = False"
| "readable (JFloat w) = False"
| "readable (JArr xs) = False"
| "readable_members [] = True"
| "readable_members ((k, v) # kvs) = (py_text k \<and> readable v \<and> readable_members kvs)"


subsection \<open>Documents\<close>

text \<open>
  A document of the persisted context: a dict of tables, a table a dict of entries, an
  entry a dict of strings; as Python values the dicts have distinct keys and the strings
  are Python strings. \<open>pair_free\<close> says that in no string of a value a high surrogate
  is directly followed by a low surrogate.
\<close>

fun no_pair :: "pystr \<Rightarrow> bool" where
  "no_pair (h # l # t) = (\<not> (is_high h \<and> is_low l) \<and> no_pair (l # t))"
| "no_pair s = True"

fun pair_free :: "json \<Rightarrow> bool"
  and pair_free_elements :: "json list \<Rightarrow> bool"
  and pair_free_members :: "(pystr \<times> json) list \<Rightarrow> bool" where
  "pair_free (JStr s) = no_pair s"
| "pair_free (JArr xs) = pair_free_elements xs"
| "pair_free (JObj kvs) = pair_free_members kvs"
| "pair_free JNull = True"
| "pair_free (JBool b) = True"
| "pair_free (JInt i) = True"
| "pair_free (JFloat w) = True"
| "pair_free_elements [] = True"
| "pair_free_elements (x # xs) = (pair_free x \<and> pair_free_elements xs)"
| "pair_free_members [] = True"
| "pair_free_members ((k, v) # kvs) = (no_pair k \<and> pair_free v \<and> pair_free_members kvs)"

fun nested :: "nat \<Rightarrow> json \<Rightarrow> bool"
  and nested_members :: "nat \<Rightarrow> (pystr \<times> json) list \<Rightarrow> bool" where
  "nested 0 v = (case v of JStr s \<Rightarrow> py_text s | _ \<Rightarrow> False)"
| "nested (Suc n) v =
     (case v of JObj kvs \<Rightarrow> distinct (map fst kvs) \<and> nested_members n kvs | _ \<Rightarrow> False)"
| "nested_members n [] = True"
| "nested_members n ((k, v) # kvs) = (py_text k \<and> nested n v \<and> nested_members n kvs)"

definition document :: "json \<Rightarrow> bool" where
  "document d = nested (Suc (Suc (Suc 0))) d"

section \<open>Sample states\<close>

text \<open>The state of a fresh process without a backing file, and one with a full turn log.\<close>

definition st0 :: state where
  "st0 = \<lparr>turn_history = [], snippet_cache = Map.empty, disk_context = empty_context,
     context_file = Missing\<rparr>"

definition full_state :: state where
  "full_state = \<lparr>turn_history = replicate 20 \<lparr>role = ascii ''user'', content = []\<rparr>,
     snippet_cache = Map.empty, disk_context = empty_context, context_file = Missing\<rparr>"

section \<open>Sample inputs\<close>

definition gen3 :: pystr where
  "gen3 = ascii ''import os'' @ [10] @ ascii ''y = f(x)'' @ [10] @ ascii ''x = 1'' @ [10]"

text \<open>
  A text in which a removal joins two fragments into a control token: the end-of-text
  token stands inside a split end-of-text token.
\<close>

definition rejoined :: pystr where
  "rejoined = ascii ''<|endof'' @ endoftext @ ascii ''text|>''"

text \<open>
  The opening fence marker that \<^verbatim>\<open>_extract_code\<close> recognises: the fence, then
  \<^verbatim>\<open>python\<close> or nothing, then a line feed at once; a text has one when one of the two
  occurs in it. The closing marker is the fence.
\<close>

definition open_marker :: "pystr \<Rightarrow> bool" where
  "open_marker m = (m = fence @ [10] \<or> m = fence @ ascii ''python'' @ [10])"

definition has_open_marker :: "pystr \<Rightarrow> bool" where
  "has_open_marker s = (sublist (fence @ [10]) s \<or> sublist (fence @ ascii ''python'' @ [10]) s)"

text \<open>
  The first line of a fenced block in general: the fence followed on the same line by a
  language tag, which is any text without a backquote and without a line feed.
\<close>

definition fence_line :: "pystr \<Rightarrow> bool" where
  "fence_line m = (prefix fence m \<and> 10 \<notin> set (drop 3 m) \<and> 96 \<notin> set (drop 3 m))"

text \<open>
  For the examples, the \<^verbatim>\<open>json\<close> library at one point: the text that
  \<^verbatim>\<open>json.dumps(ctx, indent=2)\<close> gives for the empty context, which \<^verbatim>\<open>json.loads\<close> reads
  back as the empty context. \<open>sample_loads\<close> rejects every other text and
  \<open>sample_dumps\<close> is not meant for any other value; the examples use them on this
  text, on this value and on a text that is not JSON only.
\<close>

definition empty_context_text :: pystr where
  "empty_context_text =
     ascii ''{'' @ [10] @ ascii ''  \"snippets\": {},'' @ [10] @
     ascii ''  \"file_summaries\": {}'' @ [10] @ ascii ''}''"

definition sample_loads :: "pystr \<Rightarrow> error + json" where
  "sample_loads t = (if t = empty_context_text then Inr empty_context else Inl JSONDecodeError)"

definition sample_dumps :: "json \<Rightarrow> pystr" where
  "sample_dumps d = (if d = empty_context then empty_context_text else ascii ''null'')"

text \<open>
  Three documents: one with a snippet of text beyond ASCII, one whose code is a high
  surrogate followed by a low surrogate, and what the second is read back as; and the
  text that \<^verbatim>\<open>json.dumps(ctx, indent=2)\<close> gives for the second.
\<close>

definition sample_document :: json where
  "sample_document =
     JObj [(ascii ''snippets'',
            JObj [(ascii ''# caf'' @ [233],
                   JObj [(ascii ''code'', JStr (ascii ''s = \"a\"'' @ [10] @ [128512])),
                         (ascii ''timestamp'', JStr (ascii ''2024-01-01 00:00:00''))])]),
           (ascii ''file_summaries'', JObj [])]"

definition split_pair_document :: json where
  "split_pair_document =
     JObj [(ascii ''snippets'',
            JObj [(ascii ''# smile'',
                   JObj [(ascii ''code'', JStr [55357, 56832]),
                         (ascii ''timestamp'', JStr (ascii ''2024-01-01 00:00:00''))])]),
           (ascii ''file_summaries'', JObj [])]"

definition joined_pair_document :: json where
  "joined_pair_document =
     JObj [(ascii ''snippets'',
            JObj [(ascii ''# smile'',
                   JObj [(ascii ''code'', JStr [128512]),
                         (ascii ''timestamp'', JStr (ascii ''2024-01-01 00:00:00''))])]),
           (ascii ''file_summaries'', JObj [])]"

definition split_pair_text :: pystr where
  "split_pair_text =
     ascii ''{'' @ [10] @
     ascii ''  \"snippets\": {'' @ [10] @
     ascii ''    \"# smile\": {'' @ [10] @
     ascii ''      \"code\": \"'' @ [92] @ ascii ''ud83d'' @ [92] @ ascii ''ude00\",'' @ [10] @
     ascii ''      \"timestamp\": \"2024-01-01 00:00:00\"'' @ [10] @
     ascii ''    }'' @ [10] @
     ascii ''  },'' @ [10] @
     ascii ''  \"file_summaries\": {}'' @ [10] @
     ascii ''}''"

section \<open>Properties of the string operations\<close>

lemma strip_Nil: "strip [] = []"
  by (simp add: strip_def lstrip_def rstrip_def)

lemma split_nl_nonempty: "split_nl s \<noteq> []"
  by (induction s) (auto split: list.splits)

lemma hd_split_nl: "hd (split_nl s) = takeWhile (\<lambda>c. c \<noteq> 10) s"
  using split_nl_nonempty by (induction s) (auto split: list.splits)

lemma sublist_strip: "sublist (strip s) s"
proof -
  have "sublist (rstrip (lstrip s)) (lstrip s)"
    unfolding rstrip_def by (simp add: sublist_rev_left)
  moreover have "sublist (lstrip s) s"
    by (simp add: lstrip_def)
  ultimately show ?thesis
    unfolding strip_def by (rule sublist_order.order.trans)
qed

lemma str_replace_Nil: "str_replace old [] [] = []"
  by (simp add: str_replace.simps)

lemma str_replace_match:
  "old \<noteq> [] \<Longrightarrow> prefix old s \<Longrightarrow> str_replace old [] s = str_replace old [] (drop (length old) s)"
  by (subst str_replace.simps) auto

lemma str_replace_skip:
  "old \<noteq> [] \<Longrightarrow> \<not> prefix old (c # cs) \<Longrightarrow>
   str_replace old [] (c # cs) = c # str_replace old [] cs"
  by (subst str_replace.simps) auto

lemma str_replace_absent:
  "\<not> set old \<subseteq> set s \<Longrightarrow> str_replace old new s = s"
proof (induction old new s rule: str_replace.induct)
  case (1 old new s)
  from "1.prems" have old: "old \<noteq> []" by auto
  show ?case
  proof (cases s)
    case Nil
    with old show ?thesis by (simp add: str_replace.simps)
  next
    case (Cons c cs)
    have np: "\<not> prefix old s"
      using "1.prems" by (auto simp: prefix_def)
    have "\<not> set old \<subseteq> set (tl s)"
      using "1.prems" Cons by auto
    then have "str_replace old new (tl s) = tl s"
      using "1.IH"(2) old Cons np by simp
    then show ?thesis
      using old Cons np by (subst str_replace.simps) simp
  qed
qed

text \<open>What one pass leaves starts with the character only if the text did.\<close>

lemma hd_fence_replace:
  assumes p: "prefix [96] (str_replace fence [] s)"
  shows "prefix [96] s"
proof (cases s)
  case Nil
  with p show ?thesis by (simp add: str_replace_Nil)
next
  case (Cons c cs)
  show ?thesis
  proof (cases "prefix fence s")
    case True
    then show ?thesis by (auto simp: fence_def prefix_def)
  next
    case False
    then have "str_replace fence [] s = c # str_replace fence [] cs"
      unfolding Cons by (intro str_replace_skip) (simp_all add: fence_def)
    with p show ?thesis by (simp add: Cons)
  qed
qed

lemma hd2_fence_replace:
  assumes p: "prefix [96, 96] (str_replace fence [] s)"
  shows "prefix [96, 96] s"
proof (cases s)
  case Nil
  with p show ?thesis by (simp add: str_replace_Nil)
next
  case (Cons c cs)
  show ?thesis
  proof (cases "prefix fence s")
    case True
    then show ?thesis by (auto simp: fence_def prefix_def)
  next
    case False
    then have "str_replace fence [] s = c # str_replace fence [] cs"
      unfolding Cons by (intro str_replace_skip) (simp_all add: fence_def)
    with p have "c = 96" and "prefix [96] (str_replace fence [] cs)"
      by simp_all
    then show ?thesis
      using hd_fence_replace [of cs] by (simp add: Cons)
  qed
qed

lemma no_fence_after_replace: "\<not> sublist fence (str_replace fence [] s)"
proof (induction "length s" arbitrary: s rule: less_induct)
  case less
  show ?case
  proof (cases s)
    case Nil
    then show ?thesis by (simp add: str_replace_Nil fence_def)
  next
    case (Cons c cs)
    show ?thesis
    proof (cases "prefix fence s")
      case True
      then have "str_replace fence [] s = str_replace fence [] (drop (length fence) s)"
        by (intro str_replace_match) (simp_all add: fence_def)
      moreover have "length (drop (length fence) s) < length s"
        by (simp add: Cons fence_def)
      ultimately show ?thesis
        using less by simp
    next
      case False
      then have eq: "str_replace fence [] s = c # str_replace fence [] cs"
        unfolding Cons by (intro str_replace_skip) (simp_all add: fence_def)
      have ih: "\<not> sublist fence (str_replace fence [] cs)"
        using less [of cs] by (simp add: Cons)
      have "\<not> prefix fence (c # str_replace fence [] cs)"
      proof
        assume "prefix fence (c # str_replace fence [] cs)"
        then have "c = 96" and "prefix [96, 96] (str_replace fence [] cs)"
          by (simp_all add: fence_def)
        then have "prefix fence s"
          using hd2_fence_replace [of cs] by (simp add: Cons fence_def)
        with False show False ..
      qed
      with ih show ?thesis
        unfolding eq by (simp add: sublist_Cons_right)
    qed
  qed
qed

lemma strip_no_space:
  "s \<noteq> [] \<Longrightarrow> \<not> isspace (hd s) \<Longrightarrow> \<not> isspace (last s) \<Longrightarrow> strip s = s"
proof -
  assume s: "s \<noteq> []" and h: "\<not> isspace (hd s)" and l: "\<not> isspace (last s)"
  have keep: "dropWhile isspace xs = xs" if "xs \<noteq> []" "\<not> isspace (hd xs)" for xs
    using that by (cases xs) auto
  have "dropWhile isspace (rev s) = rev s"
    using s l by (intro keep) (simp_all add: hd_rev)
  then show ?thesis
    using keep [OF s h] by (simp add: strip_def lstrip_def rstrip_def)
qed

section \<open>Properties of the turn log\<close>

lemma turn_history_add_turn:
  "turn_history (add_turn st r c) =
     last_n (MAX_TURNS * 2) (turn_history st @ [mk_turn (r, c)])"
  if "length (turn_history st) \<le> MAX_TURNS * 2"
proof (cases "length (turn_history st) = MAX_TURNS * 2")
  case True
  then have "turn_history st \<noteq> []"
    by (auto simp: MAX_TURNS_def)
  then obtain x xs where "turn_history st = x # xs"
    by (cases "turn_history st") auto
  with True show ?thesis
    by (simp add: add_turn_def last_n_def mk_turn_def Let_def)
next
  case False
  with that show ?thesis
    by (simp add: add_turn_def last_n_def mk_turn_def Let_def)
qed

lemma last_n_append_last_n:
  "last_n n (last_n n xs @ ys) = last_n n (xs @ ys)"
proof (cases "length xs \<le> n")
  case True
  then show ?thesis by (simp add: last_n_def)
next
  case False
  have "length xs + length ys - n = (length xs - n) + length ys"
    using False by simp
  moreover have "length ys - n = length xs - n + length ys - length xs"
    using False by arith
  ultimately show ?thesis
    using False by (simp add: last_n_def min_def add.commute)
qed

lemma length_last_n: "length (last_n n xs) = min n (length xs)"
  by (simp add: last_n_def)

lemma turn_history_add_turns:
  "length (turn_history st) \<le> MAX_TURNS * 2 \<Longrightarrow>
   turn_history (add_turns st calls) =
     last_n (MAX_TURNS * 2) (turn_history st @ map mk_turn calls)"
proof (induction calls arbitrary: st)
  case Nil
  then show ?case by (simp add: last_n_def)
next
  case (Cons rc calls)
  obtain r c where rc: "rc = (r, c)" by (cases rc)
  let ?st = "add_turn st r c"
  have h: "turn_history ?st = last_n (MAX_TURNS * 2) (turn_history st @ [mk_turn (r, c)])"
    using Cons.prems by (rule turn_history_add_turn)
  then have le: "length (turn_history ?st) \<le> MAX_TURNS * 2"
    by (simp add: length_last_n)
  have "turn_history (add_turns st (rc # calls)) =
          last_n (MAX_TURNS * 2) (turn_history ?st @ map mk_turn calls)"
    using Cons.IH [OF le] by (simp add: rc)
  also have "\<dots> = last_n (MAX_TURNS * 2) ((turn_history st @ [mk_turn (r, c)]) @ map mk_turn calls)"
    unfolding h by (rule last_n_append_last_n)
  finally show ?case by (simp add: rc)
qed

lemma length_alternating: "length (alternating u cs) = length cs"
  by (induction cs arbitrary: u) auto

text \<open>
  C2. Starting from a log of at most \<open>2 * MAX_TURNS = 20\<close> entries, after any sequence of
  \<^verbatim>\<open>add_turn\<close> calls the log has at most 20 entries and is the last 20 (or fewer) of
  the old entries followed by the appended ones, in the order of appending; an append to
  a full log drops the oldest entry only, and an append to a shorter log drops nothing.
\<close>

theorem turn_log_bounded_fifo:
  "length (turn_history st) \<le> 2 * MAX_TURNS \<Longrightarrow>
   2 * MAX_TURNS = 20 \<and>
   length (turn_history (add_turns st calls)) \<le> 2 * MAX_TURNS \<and>
   turn_history (add_turns st calls) =
     last_n (2 * MAX_TURNS) (turn_history st @ map mk_turn calls) \<and>
   (length (turn_history st) = 2 * MAX_TURNS \<longrightarrow>
      turn_history (add_turn st r c) = tl (turn_history st) @ [mk_turn (r, c)]) \<and>
   (length (turn_history st) < 2 * MAX_TURNS \<longrightarrow>
      turn_history (add_turn st r c) = turn_history st @ [mk_turn (r, c)])"
proof -
  assume "length (turn_history st) \<le> 2 * MAX_TURNS"
  then have le: "length (turn_history st) \<le> MAX_TURNS * 2"
    by (simp add: mult.commute)
  have eq: "turn_history (add_turns st calls) =
      last_n (2 * MAX_TURNS) (turn_history st @ map mk_turn calls)"
    using turn_history_add_turns [OF le, of calls] by (simp add: mult.commute)
  have "length (turn_history (add_turns st calls)) \<le> 2 * MAX_TURNS"
    unfolding eq by (simp add: length_last_n)
  moreover have "length (turn_history st) = 2 * MAX_TURNS \<longrightarrow>
      turn_history (add_turn st r c) = tl (turn_history st) @ [mk_turn (r, c)]"
    by (cases "turn_history st") (auto simp: add_turn_def mk_turn_def Let_def MAX_TURNS_def)
  moreover have "length (turn_history st) < 2 * MAX_TURNS \<longrightarrow>
      turn_history (add_turn st r c) = turn_history st @ [mk_turn (r, c)]"
    by (auto simp: add_turn_def mk_turn_def Let_def)
  ultimately show ?thesis
    using eq by (simp add: MAX_TURNS_def)
qed

theorem turn_log_bounded_fifo_witness:
  "length (turn_history full_state) \<le> 2 * MAX_TURNS \<and>
   length (turn_history (add_turns full_state
     [(ascii ''assistant'', ascii ''a''), (ascii ''user'', ascii ''b'')])) \<le> 2 * MAX_TURNS \<and>
   turn_history (add_turn full_state (ascii ''assistant'') (ascii ''a'')) =
     tl (turn_history full_state) @ [mk_turn (ascii ''assistant'', ascii ''a'')]"
proof -
  have h: "length (turn_history full_state) \<le> 2 * MAX_TURNS"
    by (simp add: full_state_def MAX_TURNS_def)
  have f: "length (turn_history full_state) = 2 * MAX_TURNS"
    by (simp add: full_state_def MAX_TURNS_def)
  show ?thesis
    using h f turn_log_bounded_fifo [OF h,
        of "[(ascii ''assistant'', ascii ''a''), (ascii ''user'', ascii ''b'')]"
        "ascii ''assistant''" "ascii ''a''"]
    by blast
qed

text \<open>
  C8. From an empty log, 25 \<^verbatim>\<open>add_turn\<close> calls with alternating roles (the user first) and
  any contents leave exactly 20 entries, and \<^verbatim>\<open>get_history_messages("sys")\<close> then returns
  21 messages: the system message with content \<^verbatim>\<open>sys\<close>, followed by the log, which holds
  the last 20 of the 25 turns in the order of appending.
\<close>

theorem scenario_25_turns:
  "turn_history st = [] \<Longrightarrow> length cs = 25 \<Longrightarrow>
   (let st' = add_turns st (alternating True cs);
        messages = get_history_messages st' (ascii ''sys'')
    in length (turn_history st') = 20 \<and>
       length messages = 21 \<and>
       hd messages = \<lparr>role = ascii ''system'', content = ascii ''sys''\<rparr> \<and>
       tl messages = turn_history st' \<and>
       turn_history st' = drop 5 (map mk_turn (alternating True cs)))"
proof -
  assume e: "turn_history st = []" and l: "length cs = 25"
  have "turn_history (add_turns st (alternating True cs)) =
      last_n (MAX_TURNS * 2) (turn_history st @ map mk_turn (alternating True cs))"
    by (rule turn_history_add_turns) (simp add: e)
  then have h: "turn_history (add_turns st (alternating True cs)) =
      drop 5 (map mk_turn (alternating True cs))"
    by (simp add: e l last_n_def MAX_TURNS_def length_alternating)
  show ?thesis
    unfolding Let_def get_history_messages_def h
    by (simp add: last_n_def MAX_TURNS_def length_alternating l)
qed

theorem scenario_25_turns_witness:
  "turn_history st0 = [] \<and> length (map (\<lambda>i. [48 + i]) [0..<25]) = 25 \<and>
   length (turn_history (add_turns st0
     (alternating True (map (\<lambda>i. [48 + i]) [0..<25])))) = 20 \<and>
   length (get_history_messages (add_turns st0
     (alternating True (map (\<lambda>i. [48 + i]) [0..<25]))) (ascii ''sys'')) = 21"
proof -
  have e: "turn_history st0 = []"
    by (simp add: st0_def)
  have l: "length (map (\<lambda>i. [48 + i]) [0..<25]) = 25"
    by simp
  show ?thesis
    using e l scenario_25_turns [OF e l] unfolding Let_def by blast
qed

section \<open>Properties of the line filter\<close>

lemma clean_line_blank: "strip l = [] \<Longrightarrow> clean_line isupper l = Some []"
  by (simp add: clean_line_def)

lemma clean_line_nonblank:
  "strip l \<noteq> [] \<Longrightarrow> clean_line isupper l = None \<or> clean_line isupper l = Some l"
  by (simp add: clean_line_def Let_def)

lemma map_filter_clean_line:
  "List.map_filter (clean_line isupper) ls =
     map (\<lambda>l. if strip l = [] then [] else l) (filter (\<lambda>l. clean_line isupper l \<noteq> None) ls)"
proof (induction ls)
  case Nil
  show ?case by (simp add: List.map_filter_simps)
next
  case (Cons l ls)
  show ?case
  proof (cases "strip l = []")
    case True
    then show ?thesis
      using Cons.IH by (simp add: List.map_filter_simps clean_line_blank)
  next
    case False
    then show ?thesis
      using Cons.IH clean_line_nonblank [OF False, of isupper]
      by (auto simp: List.map_filter_simps)
  qed
qed

text \<open>
  C3. Every non-blank line that \<^verbatim>\<open>_clean_code_lines\<close> returns has a trimmed text that
  differs from the trimmed text of every line of \<^verbatim>\<open>all_lines\<close>.
\<close>

theorem filtered_lines_not_existing:
  "\<forall>l \<in> set (clean_code_lines isupper generated all_lines).
     strip l \<noteq> [] \<longrightarrow> (\<forall>e \<in> set all_lines. strip l \<noteq> strip e)"
  by (auto simp: clean_code_lines_def)

lemma split_gen3:
  "split_nl gen3 = [ascii ''import os'', ascii ''y = f(x)'', ascii ''x = 1'', []]"
  by (simp add: gen3_def ascii_def)

lemma strip_import: "strip (ascii ''import os'') = ascii ''import os''"
  by (simp add: ascii_def strip_def lstrip_def rstrip_def isspace_def)

lemma strip_y: "strip (ascii ''y = f(x)'') = ascii ''y = f(x)''"
  by (simp add: ascii_def strip_def lstrip_def rstrip_def isspace_def)

lemma strip_x: "strip (ascii ''x = 1'') = ascii ''x = 1''"
  by (simp add: ascii_def strip_def lstrip_def rstrip_def isspace_def)

lemma strip_x_indented: "strip (ascii ''  x = 1'') = ascii ''x = 1''"
  by (simp add: ascii_def strip_def lstrip_def rstrip_def isspace_def)

lemma clean_line_import: "clean_line ascii_isupper (ascii ''import os'') = None"
  unfolding clean_line_def strip_import by (simp add: ascii_def fence_def)

lemma clean_line_y: "clean_line ascii_isupper (ascii ''y = f(x)'') = Some (ascii ''y = f(x)'')"
  unfolding clean_line_def strip_y
  by (simp add: ascii_def fence_def sublist_code suffix_to_prefix code_marks_def ascii_isupper_def)

lemma clean_line_x: "clean_line ascii_isupper (ascii ''x = 1'') = Some (ascii ''x = 1'')"
  unfolding clean_line_def strip_x
  by (simp add: ascii_def fence_def sublist_code suffix_to_prefix code_marks_def ascii_isupper_def)

lemma clean_gen3:
  "clean_code_lines ascii_isupper gen3 [ascii ''  x = 1''] = [ascii ''y = f(x)'', []]"
  unfolding clean_code_lines_def split_gen3
  by (simp add: List.map_filter_def clean_line_import clean_line_y clean_line_x clean_line_blank
      strip_x_indented strip_y strip_x strip_Nil)
     (simp add: ascii_def)

theorem filtered_lines_not_existing_witness:
  "clean_code_lines ascii_isupper gen3 [ascii ''  x = 1''] = [ascii ''y = f(x)'', []] \<and>
   strip (ascii ''y = f(x)'') \<noteq> [] \<and>
   strip (ascii ''y = f(x)'') \<noteq> strip (ascii ''  x = 1'')"
proof -
  have m: "ascii ''y = f(x)'' \<in> set (clean_code_lines ascii_isupper gen3 [ascii ''  x = 1''])"
    by (simp add: clean_gen3)
  have n: "strip (ascii ''y = f(x)'') \<noteq> []"
    by (simp add: strip_y) (simp add: ascii_def)
  show ?thesis
    using filtered_lines_not_existing [of ascii_isupper gen3 "[ascii ''  x = 1'']"] m n clean_gen3
    by auto
qed

text \<open>
  C9, as amended. The output of \<^verbatim>\<open>_clean_code_lines\<close> is the list of the lines of
  \<^verbatim>\<open>generated\<close> from which some non-blank lines are removed and in which every blank
  line is replaced by the empty string: every blank line is kept, at its place among the
  surviving lines, but a line of whitespace only loses its whitespace.
\<close>

theorem blank_lines_kept_as_empty:
  "\<exists>keep. clean_code_lines isupper generated all_lines =
     map (\<lambda>l. if strip l = [] then [] else l)
       (filter (\<lambda>l. strip l = [] \<or> keep l) (split_nl generated))"
proof -
  let ?ex = "set (filter (\<lambda>s. s \<noteq> []) (map strip all_lines))"
  let ?keep = "\<lambda>l. clean_line isupper l \<noteq> None \<and> strip l \<notin> ?ex"
  have eq: "clean_code_lines isupper generated all_lines =
     map (\<lambda>l. if strip l = [] then [] else l)
       (filter (\<lambda>l. strip l = [] \<or> ?keep l) (split_nl generated))"
    unfolding clean_code_lines_def Let_def map_filter_clean_line filter_map filter_filter
    by (rule arg_cong [where f = "map _"], rule filter_cong)
       (auto simp: strip_Nil clean_line_blank)
  show ?thesis
    by (rule exI [where x = ?keep]) (rule eq)
qed

lemma split_two_spaces: "split_nl [32, 32] = [[32, 32]]"
  by simp

lemma strip_two_spaces: "strip [32, 32] = []"
  by (simp add: strip_def lstrip_def rstrip_def isspace_def)

theorem blank_lines_kept_as_empty_witness:
  "clean_code_lines ascii_isupper [32, 32] [] = [[]]"
proof -
  obtain keep where "clean_code_lines ascii_isupper [32, 32] [] =
     map (\<lambda>l. if strip l = [] then [] else l)
       (filter (\<lambda>l. strip l = [] \<or> keep l) (split_nl [32, 32]))"
    using blank_lines_kept_as_empty [of ascii_isupper "[32, 32]" "[]"] by blast
  then show ?thesis
    by (simp add: strip_two_spaces)
qed

text \<open>
  The claim C9 as it is written fails: the line of two spaces is blank, and the output
  does not contain it; it contains the empty string in its place.
\<close>

theorem whitespace_line_not_kept_as_is:
  "split_nl [32, 32] = [[32, 32]] \<and> strip [32, 32] = [] \<and>
   clean_code_lines ascii_isupper [32, 32] [] = [[]] \<and>
   [32, 32] \<notin> set (clean_code_lines ascii_isupper [32, 32] [])"
proof -
  have "clean_code_lines ascii_isupper [32, 32] [] = [[]]"
    unfolding clean_code_lines_def split_two_spaces
    by (simp add: List.map_filter_def clean_line_blank strip_two_spaces strip_Nil)
  then show ?thesis
    by (simp add: strip_two_spaces)
qed

section \<open>Properties of the sanitizer\<close>

text \<open>
  For every text and every line prefix the result of \<^verbatim>\<open>clean_completion\<close> contains no
  line feed and no fence marker, and it is a contiguous part of the text that the six
  removal passes leave (the four control tokens, then the fence with \<^verbatim>\<open>python\<close>, then
  the fence).
\<close>

lemma clean_completion_no_newline_no_fence:
  "10 \<notin> set (clean_completion raw p) \<and>
   \<not> sublist fence (clean_completion raw p) \<and>
   sublist (clean_completion raw p)
     (str_replace fence [] (str_replace (fence @ ascii ''python'') []
        (foldl (\<lambda>s token. str_replace token [] s) raw control_tokens)))"
proof -
  define c1 where "c1 = foldl (\<lambda>s token. str_replace token [] s) raw control_tokens"
  define r where "r = str_replace fence [] (str_replace (fence @ ascii ''python'') [] c1)"
  define c2 where "c2 = strip r"
  define cur where "cur = strip p"
  define c3 where "c3 = (if cur \<noteq> [] \<and> prefix cur c2 then strip (drop (length cur) c2) else c2)"
  define c4 where "c4 = dropWhile lead_class c3"
  define c5 where "c5 = takeWhile (\<lambda>c. c \<noteq> 10) c4"
  have out: "clean_completion raw p = strip c5"
    unfolding clean_completion_def Let_def hd_split_nl c5_def c4_def c3_def cur_def c2_def
      r_def c1_def ..
  have "set (strip c5) \<subseteq> set c5"
    by (rule set_mono_sublist) (rule sublist_strip)
  moreover have "10 \<notin> set c5"
    unfolding c5_def by (auto dest: set_takeWhileD)
  ultimately have nl: "10 \<notin> set (clean_completion raw p)"
    unfolding out by auto
  have "sublist c2 r"
    unfolding c2_def by (rule sublist_strip)
  moreover have "sublist c3 c2"
  proof (cases "cur \<noteq> [] \<and> prefix cur c2")
    case True
    have "sublist (strip (drop (length cur) c2)) (drop (length cur) c2)"
      by (rule sublist_strip)
    also have "sublist (drop (length cur) c2) c2"
      by simp
    finally show ?thesis
      using True by (simp add: c3_def)
  next
    case False
    then show ?thesis by (auto simp: c3_def)
  qed
  moreover have "sublist c4 c3"
    unfolding c4_def by simp
  moreover have "sublist c5 c4"
    unfolding c5_def by simp
  moreover have "sublist (strip c5) c5"
    by (rule sublist_strip)
  ultimately have sub: "sublist (clean_completion raw p) r"
    unfolding out by (meson sublist_order.order.trans)
  have "\<not> sublist fence r"
    unfolding r_def by (rule no_fence_after_replace)
  with sub have nf: "\<not> sublist fence (clean_completion raw p)"
    by (meson sublist_order.order.trans)
  from nl nf sub show ?thesis
    unfolding r_def c1_def by simp
qed

lemma rejoined_passes:
  "foldl (\<lambda>s token. str_replace token [] s) rejoined control_tokens = endoftext"
proof -
  have a: "str_replace fim_begin [] rejoined = rejoined"
    by (rule str_replace_absent) (simp add: fim_begin_def rejoined_def endoftext_def ascii_def)
  have b: "str_replace fim_hole [] rejoined = rejoined"
    by (rule str_replace_absent) (simp add: fim_hole_def rejoined_def endoftext_def ascii_def)
  have c: "str_replace fim_end [] rejoined = rejoined"
    by (rule str_replace_absent) (simp add: fim_end_def rejoined_def endoftext_def ascii_def)
  have d: "str_replace endoftext [] rejoined = endoftext"
    by (simp add: rejoined_def endoftext_def ascii_def str_replace_skip str_replace_match
        str_replace_Nil)
  show ?thesis
    by (simp add: control_tokens_def a b c d)
qed

text \<open>
  C1. The loop of \<^verbatim>\<open>clean_completion\<close> is there to remove every control token, but each
  \<^verbatim>\<open>str.replace\<close> scans the text once and does not look at what a removal joins. For
  the end-of-text token standing inside a split end-of-text token the result is the
  end-of-text token: the result contains a control token.
\<close>

theorem control_token_rejoined:
  "clean_completion rejoined [] = endoftext \<and>
   endoftext \<in> set control_tokens \<and>
   sublist endoftext (clean_completion rejoined [])"
proof -
  have f1: "str_replace (fence @ ascii ''python'') [] endoftext = endoftext"
    by (rule str_replace_absent) (simp add: fence_def endoftext_def ascii_def)
  have f2: "str_replace fence [] endoftext = endoftext"
    by (rule str_replace_absent) (simp add: fence_def endoftext_def ascii_def)
  have s: "strip endoftext = endoftext"
    by (rule strip_no_space) (simp_all add: endoftext_def ascii_def isspace_def)
  have l: "dropWhile lead_class endoftext = endoftext"
    by (simp add: endoftext_def ascii_def lead_class_def isspace_def)
  have t: "takeWhile (\<lambda>c. c \<noteq> 10) endoftext = endoftext"
    by (simp add: endoftext_def ascii_def)
  have "clean_completion rejoined [] = endoftext"
    unfolding clean_completion_def Let_def rejoined_passes hd_split_nl
    by (simp add: f1 f2 s strip_Nil l t)
  then show ?thesis
    by (simp add: control_tokens_def)
qed

section \<open>Properties of the code extraction\<close>

lemma match_open_None:
  "match_open s = None \<longleftrightarrow>
     \<not> prefix (fence @ [10]) s \<and> \<not> prefix (fence @ ascii ''python'' @ [10]) s"
  by (auto simp: match_open_def)

lemma match_open_fence: "match_open s = Some r \<Longrightarrow> prefix fence s"
  by (auto simp: match_open_def prefix_def split: if_splits)

lemma open_marker_shape: "open_marker m \<Longrightarrow> \<exists>t. m = fence @ t \<and> t \<noteq> [] \<and> 96 \<notin> set t"
  by (auto simp: open_marker_def ascii_def)

lemma match_open_marker: "open_marker m \<Longrightarrow> match_open (m @ s) = Some s"
  by (auto simp: open_marker_def match_open_def fence_def ascii_def)

lemma search_skip:
  "(\<forall>j < length x. match_open (drop j x @ s) = None) \<Longrightarrow>
   search_closed (x @ s) = search_closed s \<and> search_open (x @ s) = search_open s"
proof (induction x)
  case Nil
  show ?case by simp
next
  case (Cons c x)
  have "match_open (drop 0 (c # x) @ s) = None"
    using Cons.prems by blast
  then have now: "match_open (c # x @ s) = None"
    by simp
  have "match_open (drop j x @ s) = None" if "j < length x" for j
    using Cons.prems [rule_format, of "Suc j"] that by simp
  then have "search_closed (x @ s) = search_closed s \<and> search_open (x @ s) = search_open s"
    using Cons.IH by blast
  with now show ?case by simp
qed

lemma no_open_marker_before:
  assumes m: "open_marker m" and pre: "\<not> has_open_marker pre" and j: "j < length pre"
  shows "match_open (drop j pre @ m @ s) = None"
proof (rule ccontr)
  assume "match_open (drop j pre @ m @ s) \<noteq> None"
  then obtain o' where o': "open_marker o'" and p: "prefix o' (drop j pre @ m @ s)"
    by (auto simp: match_open_None open_marker_def)
  obtain t where o't: "o' = fence @ t" "t \<noteq> []" "96 \<notin> set t"
    using open_marker_shape [OF o'] by blast
  obtain t' where mt: "m = fence @ t'"
    using open_marker_shape [OF m] by blast
  define u where "u = drop j pre"
  have u: "u \<noteq> []"
    using j by (simp add: u_def)
  show False
  proof (cases "length o' \<le> length u")
    case True
    with p have "prefix o' u"
      unfolding u_def [symmetric] by (auto simp: prefix_def append_eq_append_conv2)
    then have "sublist o' pre"
      unfolding u_def by (meson prefix_imp_sublist sublist_drop sublist_order.order.trans)
    with o' pre show False
      by (auto simp: open_marker_def has_open_marker_def)
  next
    case False
    define k where "k = max 3 (length u)"
    have lu: "1 \<le> length u"
      using u by (cases u) simp_all
    have lo: "3 < length o'"
      using o't(1,2) by (cases t) (simp_all add: fence_def)
    have k: "k < length o'" "3 \<le> k" "length u \<le> k" "k - length u < 3"
      unfolding k_def using False lu lo by arith+
    obtain zs where zs: "u @ m @ s = o' @ zs"
      using p unfolding u_def [symmetric] prefix_def by blast
    have "(u @ m @ s) ! k = o' ! k"
      unfolding zs using k(1) by (simp add: nth_append)
    moreover have "(u @ m @ s) ! k = 96"
      using k by (auto simp: nth_append mt fence_def nth_Cons' less_Suc_eq numeral_3_eq_3)
    moreover have "o' ! k \<in> set t"
      using k o't by (auto simp: nth_append fence_def)
    ultimately show False
      using o't by auto
  qed
qed

lemma lazy_until_first:
  "\<not> sublist fence (body @ [96, 96]) \<Longrightarrow>
   lazy_until fence (body @ fence @ rest) = Some body"
proof (induction body)
  case Nil
  show ?case by (simp add: fence_def)
next
  case (Cons c body)
  have "\<not> prefix fence (c # body @ [96, 96])"
    using Cons.prems by (auto simp: sublist_Cons_right)
  then have "\<not> prefix fence (c # body @ fence @ rest)"
    by (cases body; cases "tl body") (auto simp: fence_def)
  moreover have "\<not> sublist fence (body @ [96, 96])"
    using Cons.prems by (auto simp: sublist_Cons_right)
  ultimately show ?case
    using Cons.IH by simp
qed

lemma lazy_until_none: "\<not> sublist fence s \<Longrightarrow> lazy_until fence s = None"
  by (induction s) (auto simp: sublist_Cons_right fence_def)

lemma search_closed_none: "\<not> sublist fence s \<Longrightarrow> search_closed s = None"
proof (induction s)
  case Nil
  show ?case by simp
next
  case (Cons c s)
  then have "match_open (c # s) = None"
    using match_open_fence [of "c # s"] by (cases "match_open (c # s)") auto
  with Cons show ?case
    by (simp add: sublist_Cons_right)
qed

lemma inside_open_marker:
  assumes m: "open_marker m" and j: "j < length (tl m)"
  shows "match_open (drop j (tl m) @ s) = None"
proof -
  obtain t where mt: "m = fence @ t" "t \<noteq> []" "96 \<notin> set t"
    using open_marker_shape [OF m] by blast
  have tl: "tl m = [96, 96] @ t"
    by (simp add: mt fence_def)
  have "\<not> prefix fence (drop j (tl m) @ s)"
  proof (cases "j < 2")
    case True
    then have "j = 0 \<or> j = 1" by auto
    then show ?thesis
      using mt by (cases t) (auto simp: tl fence_def)
  next
    case False
    then have ji: "j = Suc (Suc (j - 2))"
      by simp
    have "drop j (tl m) = drop (j - 2) t"
      by (subst ji) (simp add: tl)
    moreover have "drop (j - 2) t \<noteq> []"
      using j False by (simp add: tl)
    moreover have "set (drop (j - 2) t) \<subseteq> set t"
      by (rule set_drop_subset)
    ultimately show ?thesis
      using mt(3) by (cases "drop (j - 2) t") (auto simp: fence_def)
  qed
  then show ?thesis
    using match_open_fence [of "drop j (tl m) @ s"]
    by (cases "match_open (drop j (tl m) @ s)") auto
qed

lemma search_at_open_marker:
  assumes m: "open_marker m"
  shows "search_closed (m @ s) =
      (case lazy_until fence s of None \<Rightarrow> search_closed (tl m @ s) | Some g \<Rightarrow> Some g)"
    and "search_open (m @ s) = Some s"
proof -
  obtain t where "m = fence @ t"
    using open_marker_shape [OF m] by blast
  then have c: "m @ s = 96 # (tl m @ s)"
    by (simp add: fence_def)
  show "search_closed (m @ s) =
      (case lazy_until fence s of None \<Rightarrow> search_closed (tl m @ s) | Some g \<Rightarrow> Some g)"
    using match_open_marker [OF m, of s] unfolding c by simp
  show "search_open (m @ s) = Some s"
    using match_open_marker [OF m, of s] unfolding c by simp
qed

lemma extract_code_closed:
  assumes m: "open_marker m" and pre: "\<not> has_open_marker pre"
    and body: "\<not> sublist fence (body @ [96, 96])"
  shows "extract_code (pre @ m @ body @ fence @ rest) = strip body"
proof -
  have "search_closed (pre @ m @ body @ fence @ rest) = search_closed (m @ body @ fence @ rest)"
    using search_skip [of pre "m @ body @ fence @ rest"] no_open_marker_before [OF m pre]
    by blast
  also have "\<dots> = Some body"
    by (simp add: search_at_open_marker(1) [OF m] lazy_until_first [OF body])
  finally show ?thesis
    by (simp add: extract_code_def)
qed

lemma extract_code_open:
  assumes m: "open_marker m" and pre: "\<not> has_open_marker pre"
    and rest: "\<not> sublist fence rest"
  shows "extract_code (pre @ m @ rest) = strip rest"
proof -
  have skip: "search_closed (pre @ m @ rest) = search_closed (m @ rest)"
      "search_open (pre @ m @ rest) = search_open (m @ rest)"
    using search_skip [of pre "m @ rest"] no_open_marker_before [OF m pre] by blast+
  have "search_closed (m @ rest) = search_closed (tl m @ rest)"
    by (simp add: search_at_open_marker(1) [OF m] lazy_until_none [OF rest])
  also have "\<dots> = search_closed rest"
    using search_skip [of "tl m" rest] inside_open_marker [OF m] by blast
  also have "\<dots> = None"
    using rest by (rule search_closed_none)
  finally have "search_closed (pre @ m @ rest) = None"
    using skip(1) by simp
  moreover have "search_open (pre @ m @ rest) = Some rest"
    using skip(2) search_at_open_marker(2) [OF m] by simp
  ultimately show ?thesis
    by (simp add: extract_code_def)
qed

lemma extract_code_plain:
  assumes "\<not> has_open_marker whole"
  shows "extract_code whole = strip whole"
proof -
  have "match_open (drop j whole @ []) = None" for j
  proof -
    have "sublist x whole" if "prefix x (drop j whole)" for x
      using that by (meson prefix_imp_sublist sublist_drop sublist_order.order.trans)
    with assms show ?thesis
      by (auto simp: match_open_None has_open_marker_def)
  qed
  then have "search_closed (whole @ []) = search_closed [] \<and>
      search_open (whole @ []) = search_open []"
    by (intro search_skip) blast
  then show ?thesis
    by (simp add: extract_code_def)
qed

lemma strip_x1: "strip (ascii ''x = 1'' @ [10]) = ascii ''x = 1''"
  by (simp add: ascii_def strip_def lstrip_def rstrip_def isspace_def)

text \<open>
  C7, as amended. An opening fence marker is the fence directly followed by a line feed,
  or by \<^verbatim>\<open>python\<close> and a line feed. When the text has one and a fence after the first
  one, \<^verbatim>\<open>_extract_code\<close> returns the trimmed text between that marker and the first
  fence after it, whatever follows (only the first block is used); when no fence follows
  the first opening marker, it returns the trimmed text after that marker; when the text
  has no opening marker, it returns the trimmed text. On the text of the scenario it
  returns \<^verbatim>\<open>x = 1\<close>.
\<close>

theorem extract_code_cases:
  "(open_marker m \<and> \<not> has_open_marker pre \<and> \<not> sublist fence (body @ [96, 96]) \<longrightarrow>
      extract_code (pre @ m @ body @ fence @ rest) = strip body) \<and>
   (open_marker m \<and> \<not> has_open_marker pre \<and> \<not> sublist fence rest' \<longrightarrow>
      extract_code (pre @ m @ rest') = strip rest') \<and>
   (\<not> has_open_marker whole \<longrightarrow> extract_code whole = strip whole) \<and>
   extract_code (ascii ''Here:'' @ [10] @ fence @ ascii ''python'' @ [10] @
       ascii ''x = 1'' @ [10] @ fence) = ascii ''x = 1''"
proof -
  have m: "open_marker (fence @ ascii ''python'' @ [10])"
    by (simp add: open_marker_def)
  have pre: "\<not> has_open_marker (ascii ''Here:'' @ [10])"
    by (simp add: has_open_marker_def fence_def ascii_def sublist_code)
  have body: "\<not> sublist fence ((ascii ''x = 1'' @ [10]) @ [96, 96])"
    by (simp add: fence_def ascii_def sublist_code)
  have "extract_code ((ascii ''Here:'' @ [10]) @ (fence @ ascii ''python'' @ [10]) @
       (ascii ''x = 1'' @ [10]) @ fence @ []) = ascii ''x = 1''"
    unfolding extract_code_closed [OF m pre body] by (rule strip_x1)
  then show ?thesis
    using extract_code_closed extract_code_open extract_code_plain by simp
qed

theorem extract_code_cases_witness:
  "extract_code (ascii ''See '' @ (fence @ [10]) @ ascii ''x = 1'' @ [10] @ fence @ ascii '' and '' @ fence) =
     ascii ''x = 1'' \<and>
   extract_code (ascii ''See '' @ (fence @ [10]) @ ascii ''x = 1'' @ [10]) = ascii ''x = 1'' \<and>
   extract_code (ascii ''x = 1'' @ [10]) = ascii ''x = 1''"
proof -
  have m: "open_marker (fence @ [10])"
    by (simp add: open_marker_def)
  have pre: "\<not> has_open_marker (ascii ''See '')"
    by (simp add: has_open_marker_def fence_def ascii_def sublist_code)
  have body: "\<not> sublist fence ((ascii ''x = 1'' @ [10]) @ [96, 96])"
    by (simp add: fence_def ascii_def sublist_code)
  have rest: "\<not> sublist fence (ascii ''x = 1'' @ [10])"
    by (simp add: fence_def ascii_def sublist_code)
  have plain: "\<not> has_open_marker (ascii ''x = 1'' @ [10])"
    by (simp add: has_open_marker_def fence_def ascii_def sublist_code)
  show ?thesis
    using m pre body rest plain strip_x1
      extract_code_cases [where m = "fence @ [10]" and pre = "ascii ''See ''"
        and body = "ascii ''x = 1'' @ [10]" and rest = "ascii '' and '' @ fence"
        and rest' = "ascii ''x = 1'' @ [10]" and whole = "ascii ''x = 1'' @ [10]"]
    by simp
qed

text \<open>
  The claim C7 as it is written fails for a fenced block with another language tag: the
  first line of the block is not an opening marker for \<^verbatim>\<open>_extract_code\<close>, but its closing
  fence, followed by a line feed, is one. For a block tagged \<^verbatim>\<open>js\<close> with the interior
  \<^verbatim>\<open>x = 1\<close>, followed by the line \<^verbatim>\<open>more\<close>, the result is \<^verbatim>\<open>more\<close>.
\<close>

theorem tagged_block_not_extracted:
  "fence_line (fence @ ascii ''js'') \<and>
   \<not> sublist fence (ascii ''x = 1'' @ [10]) \<and>
   strip (ascii ''x = 1'' @ [10]) = ascii ''x = 1'' \<and>
   extract_code ((fence @ ascii ''js'' @ [10]) @ (ascii ''x = 1'' @ [10]) @ fence @ [10] @
     ascii ''more'') = ascii ''more'' \<and>
   ascii ''more'' \<noteq> ascii ''x = 1''"
proof -
  have m: "open_marker (fence @ [10])"
    by (simp add: open_marker_def)
  have pre: "\<not> has_open_marker (fence @ ascii ''js'' @ [10] @ ascii ''x = 1'' @ [10])"
    by (simp add: has_open_marker_def fence_def ascii_def sublist_code)
  have rest: "\<not> sublist fence (ascii ''more'')"
    by (simp add: fence_def ascii_def sublist_code)
  have "extract_code ((fence @ ascii ''js'' @ [10] @ ascii ''x = 1'' @ [10]) @ (fence @ [10]) @
      ascii ''more'') = strip (ascii ''more'')"
    using m pre rest by (rule extract_code_open)
  moreover have "strip (ascii ''more'') = ascii ''more''"
    by (simp add: ascii_def strip_def lstrip_def rstrip_def isspace_def)
  moreover have "fence_line (fence @ ascii ''js'')"
    by (simp add: fence_line_def fence_def ascii_def)
  moreover have "\<not> sublist fence (ascii ''x = 1'' @ [10])"
    by (simp add: fence_def ascii_def sublist_code)
  moreover have "ascii ''more'' \<noteq> ascii ''x = 1''"
    by (simp add: ascii_def)
  ultimately show ?thesis
    by (simp add: strip_x1)
qed

section \<open>Properties of the json library\<close>

subsection \<open>A string is read back with its surrogate pairs joined\<close>

lemma unhex_hexdigit: "d < 16 \<Longrightarrow> unhex (hexdigit d) = Some d"
  by (cases "d < 10") (simp_all add: unhex_def hexdigit_def)

lemma hex_digits_value:
  fixes n :: nat
  assumes "n < 65536"
  shows "((n div 4096 mod 16 * 16 + n div 256 mod 16) * 16 + n div 16 mod 16) * 16 + n mod 16 = n"
proof -
  define a1 where "a1 = n div 16"
  define a2 where "a2 = a1 div 16"
  define a3 where "a3 = a2 div 16"
  have "n div (16 * 16) = n div 16 div 16"
    by (rule div_mult2_eq)
  then have d2: "n div 256 = a2"
    by (simp add: a1_def a2_def)
  have "n div (256 * 16) = n div 256 div 16"
    by (rule div_mult2_eq)
  then have d3: "n div 4096 = a3"
    by (simp add: d2 a3_def)
  have "a3 < 16"
    using assms unfolding d3 [symmetric] by simp
  then have m: "a3 mod 16 = a3"
    by simp
  have "n = a1 * 16 + n mod 16" "a1 = a2 * 16 + a1 mod 16" "a2 = a3 * 16 + a2 mod 16"
    by (simp_all add: a1_def a2_def a3_def)
  then show ?thesis
    unfolding d2 d3 m a1_def [symmetric] by simp
qed

lemma unhex4_hex4:
  assumes n: "n < 65536" and h: "hex4 n = [a, b, c, d]"
  shows "unhex4 a b c d = Some n"
proof -
  have abcd: "a = hexdigit (n div 4096 mod 16)" "b = hexdigit (n div 256 mod 16)"
      "c = hexdigit (n div 16 mod 16)" "d = hexdigit (n mod 16)"
    using h by (simp_all add: hex4_def)
  have "unhex4 a b c d =
      Some (((n div 4096 mod 16 * 16 + n div 256 mod 16) * 16 + n div 16 mod 16) * 16 + n mod 16)"
    unfolding abcd unhex4_def by (simp add: unhex_hexdigit)
  then show ?thesis
    by (simp only: hex_digits_value [OF n])
qed


lemma hex4_shape: "\<exists>a b c d. hex4 n = [a, b, c, d]"
  by (simp add: hex4_def)

lemma push_Some: "push c (Some (t, r)) = Some (c # t, r)"
  by (simp add: push_def)

lemma scanstring_quote: "scanstring (34 # r) = Some ([], r)"
  by (simp add: scanstring.simps)

lemma scanstring_plain:
  "32 \<le> c \<Longrightarrow> c \<noteq> 34 \<Longrightarrow> c \<noteq> 92 \<Longrightarrow> scanstring (c # y) = push c (scanstring y)"
  by (simp add: scanstring.simps)

lemma scanstring_simple:
  "unescape e = Some u \<Longrightarrow> e \<noteq> 117 \<Longrightarrow> scanstring (92 # e # y) = push u (scanstring y)"
  by (simp add: scanstring.simps)

lemma scanstring_bmp:
  "unhex4 a b c d = Some n \<Longrightarrow> \<not> is_high n \<Longrightarrow>
   scanstring (92 # 117 # a # b # c # d # y) = push n (scanstring y)"
  by (simp add: scanstring.simps)

lemma scanstring_pair:
  "unhex4 a b c d = Some h \<Longrightarrow> is_high h \<Longrightarrow> unhex4 a2 b2 c2 d2 = Some l \<Longrightarrow> is_low l \<Longrightarrow>
   scanstring (92 # 117 # a # b # c # d # 92 # 117 # a2 # b2 # c2 # d2 # y) =
     push (join_surrogates h l) (scanstring y)"
  by (simp add: scanstring.simps low_ahead_def)

text \<open>What follows is not the escape of a low surrogate, nor an escape with a wrong digit.\<close>

lemma scanstring_lone:
  "unhex4 a b c d = Some n \<Longrightarrow> low_ahead y = NoSurrogate \<Longrightarrow>
   scanstring (92 # 117 # a # b # c # d # y) = push n (scanstring y)"
  by (simp add: scanstring.simps)


lemma escape_char_cases:
  assumes c: "c < 1114112"
  obtains (simple) e where "escape_char c = [92, e]" "unescape e = Some c" "e \<noteq> 117"
      "c < 128"
  | (plain) "escape_char c = [c]" "32 \<le> c" "c \<noteq> 34" "c \<noteq> 92" "c < 128"
  | (bmp) a b c' d where "escape_char c = [92, 117, a, b, c', d]"
      "unhex4 a b c' d = Some c"
  | (astral) a b c' d a2 b2 c2 d2 h l where
      "escape_char c = [92, 117, a, b, c', d, 92, 117, a2, b2, c2, d2]"
      "unhex4 a b c' d = Some h" "unhex4 a2 b2 c2 d2 = Some l"
      "is_high h" "is_low l" "join_surrogates h l = c" "65536 \<le> c"
proof -
  consider "c = 34" | "c = 92" | "c = 10" | "c = 13" | "c = 9" | "c = 8" | "c = 12"
    | "c \<notin> {34, 92, 10, 13, 9, 8, 12}" "32 \<le> c" "c \<le> 126"
    | "c \<notin> {34, 92, 10, 13, 9, 8, 12}" "\<not> (32 \<le> c \<and> c \<le> 126)" "c < 65536"
    | "65536 \<le> c"
    by fastforce
  then show thesis
  proof cases
    case 1
    show thesis by (rule simple [of 34]) (simp_all add: 1 escape_char_def unescape_def)
  next
    case 2
    show thesis by (rule simple [of 92]) (simp_all add: 2 escape_char_def unescape_def)
  next
    case 3
    show thesis by (rule simple [of 110]) (simp_all add: 3 escape_char_def unescape_def)
  next
    case 4
    show thesis by (rule simple [of 114]) (simp_all add: 4 escape_char_def unescape_def)
  next
    case 5
    show thesis by (rule simple [of 116]) (simp_all add: 5 escape_char_def unescape_def)
  next
    case 6
    show thesis by (rule simple [of 98]) (simp_all add: 6 escape_char_def unescape_def)
  next
    case 7
    show thesis by (rule simple [of 102]) (simp_all add: 7 escape_char_def unescape_def)
  next
    case 8
    then show thesis by (intro plain) (simp_all add: escape_char_def)
  next
    case 9
    obtain a b c' d where h: "hex4 c = [a, b, c', d]"
      using hex4_shape by blast
    show thesis
    proof (rule bmp [of a b c' d])
      show "escape_char c = [92, 117, a, b, c', d]"
        using 9 by (simp add: escape_char_def h)
      show "unhex4 a b c' d = Some c"
        using 9(3) h by (rule unhex4_hex4)
    qed
  next
    case 10
    define m where "m = c - 65536"
    define k where "k = m div 1024 mod 1024"
    define j where "j = m mod 1024"
    have m: "m < 1024 * 1024"
      using c 10 by (simp add: m_def)
    have "m div 1024 < 1024"
      using m by (rule less_mult_imp_div_less)
    then have kd: "k = m div 1024"
      by (simp add: k_def)
    have k: "k < 1024" and j: "j < 1024"
      by (simp_all add: k_def j_def)
    have "k * 1024 + j = m"
      unfolding kd j_def by (rule div_mult_mod_eq)
    then have sum_c: "65536 + k * 1024 + j = c"
      using 10 by (simp add: m_def)
    obtain a b c' d where h1: "hex4 (55296 + k) = [a, b, c', d]"
      using hex4_shape by blast
    obtain a2 b2 c2 d2 where h2: "hex4 (56320 + j) = [a2, b2, c2, d2]"
      using hex4_shape by blast
    show thesis
    proof (rule astral [of a b c' d a2 b2 c2 d2 "55296 + k" "56320 + j"])
      show "escape_char c = [92, 117, a, b, c', d, 92, 117, a2, b2, c2, d2]"
        using 10 h1 h2 by (simp add: escape_char_def k_def j_def m_def)
      show "unhex4 a b c' d = Some (55296 + k)"
        by (rule unhex4_hex4 [OF _ h1]) (use k in simp)
      show "unhex4 a2 b2 c2 d2 = Some (56320 + j)"
        by (rule unhex4_hex4 [OF _ h2]) (use j in simp)
      show "is_high (55296 + k)"
        using k by (simp add: is_high_def)
      show "is_low (56320 + j)"
        using j by (simp add: is_low_def)
      show "join_surrogates (55296 + k) (56320 + j) = c"
        using sum_c by (simp add: join_surrogates_def)
      show "65536 \<le> c"
        by (rule 10)
    qed
  qed
qed


lemma low_ahead_quote: "low_ahead (34 # r) = NoSurrogate"
  by (simp add: low_ahead_def split: list.splits)

lemma low_ahead_escape:
  assumes "c < 1114112" and "\<not> is_low c"
  shows "low_ahead (escape_char c @ z) = NoSurrogate"
  using assms(1)
proof (cases rule: escape_char_cases)
  case (simple e)
  then show ?thesis by (simp add: low_ahead_def split: list.splits)
next
  case plain
  then show ?thesis by (simp add: low_ahead_def split: list.splits)
next
  case (bmp a b c' d)
  with assms(2) show ?thesis by (simp add: low_ahead_def)
next
  case (astral a b c' d a2 b2 c2 d2 h l)
  then have "\<not> is_low h"
    by (simp add: is_high_def is_low_def)
  with astral show ?thesis by (simp add: low_ahead_def)
qed

lemma scanstring_step:
  assumes "c < 1114112" and "is_high c \<Longrightarrow> low_ahead y = NoSurrogate"
  shows "scanstring (escape_char c @ y) = push c (scanstring y)"
  using assms(1)
proof (cases rule: escape_char_cases)
  case (simple e)
  then show ?thesis by (simp add: scanstring_simple)
next
  case plain
  then show ?thesis by (simp add: scanstring_plain)
next
  case (bmp a b c' d)
  show ?thesis
  proof (cases "is_high c")
    case True
    with bmp assms(2) show ?thesis by (simp add: scanstring_lone)
  next
    case False
    with bmp show ?thesis by (simp add: scanstring_bmp)
  qed
next
  case (astral a b c' d a2 b2 c2 d2 h l)
  then show ?thesis by (simp add: scanstring_pair)
qed

lemma escape_char_surrogate:
  assumes "is_high c \<or> is_low c"
  obtains a b c' d where "escape_char c = [92, 117, a, b, c', d]" "unhex4 a b c' d = Some c"
proof -
  have c: "c < 1114112" "55296 \<le> c" "c < 65536"
    using assms by (auto simp: is_high_def is_low_def)
  from c(1) show thesis
  proof (cases rule: escape_char_cases)
    case (bmp a b c' d)
    then show ?thesis by (rule that)
  qed (use c in simp_all)
qed

lemma scanstring_escaped:
  "py_text s \<Longrightarrow>
   scanstring (concat (map escape_char s) @ 34 # rest) = Some (join_pairs s, rest)"
proof (induction s rule: join_pairs.induct)
  case (1 h l t)
  then have t: "h < 1114112" "py_text (l # t)" "py_text t"
    by (simp_all add: py_text_def)
  show ?case
  proof (cases "is_high h \<and> is_low l")
    case True
    obtain a b c d where eh: "escape_char h = [92, 117, a, b, c, d]" "unhex4 a b c d = Some h"
      using True by (blast intro: escape_char_surrogate)
    obtain a2 b2 c2 d2 where el: "escape_char l = [92, 117, a2, b2, c2, d2]"
        "unhex4 a2 b2 c2 d2 = Some l"
      using True by (blast intro: escape_char_surrogate)
    have "scanstring (concat (map escape_char t) @ 34 # rest) = Some (join_pairs t, rest)"
      using "1.IH"(1) True t(3) by simp
    then show ?thesis
      using True eh el by (simp add: scanstring_pair push_Some)
  next
    case False
    have l: "l < 1114112"
      using t(2) by (simp add: py_text_def)
    have "low_ahead (escape_char l @ concat (map escape_char t) @ 34 # rest) = NoSurrogate"
      if "is_high h"
      using that False l by (intro low_ahead_escape) simp_all
    then have "scanstring (escape_char h @ escape_char l @ concat (map escape_char t) @ 34 # rest) =
        push h (scanstring (escape_char l @ concat (map escape_char t) @ 34 # rest))"
      using t(1) by (intro scanstring_step)
    moreover have "scanstring (concat (map escape_char (l # t)) @ 34 # rest) =
        Some (join_pairs (l # t), rest)"
      using "1.IH"(2) False t(2) by simp
    moreover have "join_pairs (h # l # t) = h # join_pairs (l # t)"
      using False by auto
    ultimately show ?thesis
      by (simp add: push_Some)
  qed
next
  case 3
  show ?case by (simp add: scanstring_quote)
next
  case (2 v)
  then have "v < 1114112"
    by (simp add: py_text_def)
  then have "scanstring (escape_char v @ 34 # rest) = push v (scanstring (34 # rest))"
    by (intro scanstring_step) (simp_all add: low_ahead_quote)
  then show ?case
    by (simp add: scanstring_quote push_Some)
qed

subsection \<open>A value is read back from its text\<close>

lemma skip_ws_head: "\<not> is_ws c \<Longrightarrow> skip_ws (c # r) = c # r"
  by (simp add: skip_ws_def)

lemma skip_ws_indent: "\<not> is_ws c \<Longrightarrow> skip_ws (indent_nl l @ c # r) = c # r"
proof -
  assume c: "\<not> is_ws c"
  have "dropWhile is_ws (replicate (2 * l) 32 @ c # r) = dropWhile is_ws (c # r)"
    by (rule dropWhile_append2) (simp add: is_ws_def)
  with c show ?thesis
    by (simp add: skip_ws_def indent_nl_def is_ws_def)
qed

lemma encode_string_Cons: "encode_string s = 34 # (concat (map escape_char s) @ [34])"
  by (simp add: encode_string_def)

lemma length_encode_string: "2 \<le> length (encode_string s)"
  by (simp add: encode_string_def)

lemma dumps_at_head:
  "readable v \<Longrightarrow> \<exists>c r. dumps_at nt lvl v = c # r \<and> (c = 34 \<or> c = 123)"
  by (cases v) (auto simp: encode_string_def ascii_def)

lemma dumps_members_head: "kvs \<noteq> [] \<Longrightarrow> \<exists>r. dumps_members nt lvl kvs = 34 # r"
  by (cases kvs) (auto simp: encode_string_def)

lemma dict_set_fresh: "k \<notin> fst ` set acc \<Longrightarrow> dict_set k v acc = acc @ [(k, v)]"
  by (induction acc) auto

lemma map_fst_joined_members: "map fst (joined_members kvs) = map (join_pairs \<circ> fst) kvs"
  by (induction kvs) auto

lemma scan_once_string:
  "py_text s \<Longrightarrow> scan_once mn (Suc n) (encode_string s @ rest) = Some (JStr (join_pairs s), rest)"
  by (simp add: encode_string_Cons scanstring_escaped)


lemma parse_members_step:
  assumes key: "scanstring s1 = Some (k, 58 # 32 # vt @ t)"
    and skip: "skip_ws (32 # vt @ t) = vt @ t"
    and val: "scan_once mn n (vt @ t) = Some (v, t)"
  shows "parse_members mn (Suc n) acc (34 # s1) =
    (case skip_ws t of
       [] \<Rightarrow> None
     | d # s5 \<Rightarrow>
         (if d = 125 then Some (JObj (dict_set k v acc), s5)
          else if d = 44 then parse_members mn n (dict_set k v acc) (skip_ws s5)
          else None))"
proof -
  have "skip_ws (58 # 32 # vt @ t) = 58 # 32 # vt @ t"
    by (rule skip_ws_head) (simp add: is_ws_def)
  then show ?thesis
    using key skip val by simp
qed

lemma read_back:
  fixes nt :: "json \<Rightarrow> pystr" and mn :: "pystr \<Rightarrow> (json \<times> pystr) option"
  shows "readable v \<Longrightarrow>
      (\<forall>n lvl rest. length (dumps_at nt lvl v) \<le> n \<longrightarrow>
         scan_once mn n (dumps_at nt lvl v @ rest) = Some (joined v, rest))"
    and "readable_members kvs \<Longrightarrow> kvs \<noteq> [] \<longrightarrow>
      (\<forall>n lvl j acc rest. length (dumps_members nt lvl kvs) \<le> n \<longrightarrow>
         distinct (map fst acc @ map (join_pairs \<circ> fst) kvs) \<longrightarrow>
         parse_members mn n acc (dumps_members nt lvl kvs @ indent_nl j @ 125 # rest) =
           Some (JObj (acc @ joined_members kvs), rest))"
proof (induction v and kvs rule: readable_readable_members.induct)
  case (1 s)
  show ?case
  proof (intro allI impI)
    fix n lvl rest
    assume "length (dumps_at nt lvl (JStr s)) \<le> n"
    then obtain n' where "n = Suc n'"
      using length_encode_string [of s] by (cases n) auto
    with 1 show "scan_once mn n (dumps_at nt lvl (JStr s) @ rest) = Some (joined (JStr s), rest)"
      by (simp add: scan_once_string del: scan_once.simps)
  qed
next
  case (2 kvs)
  then have rm: "readable_members kvs"
    by simp
  show ?case
  proof (intro allI impI)
    fix n lvl rest
    assume len: "length (dumps_at nt lvl (JObj kvs)) \<le> n"
    show "scan_once mn n (dumps_at nt lvl (JObj kvs) @ rest) = Some (joined (JObj kvs), rest)"
    proof (cases "kvs = []")
      case True
      from len True obtain n' where n: "n = Suc n'"
        by (cases n) (auto simp: ascii_def)
      have "skip_ws (125 # rest) = 125 # rest"
        by (rule skip_ws_head) (simp add: is_ws_def)
      then show ?thesis
        by (simp add: True n ascii_def)
    next
      case False
      from len False obtain n' where n: "n = Suc n'"
          and len': "length (dumps_members nt (Suc lvl) kvs) \<le> n'"
        by (cases n) auto
      obtain r where r: "dumps_members nt (Suc lvl) kvs = 34 # r"
        using dumps_members_head [OF False] by blast
      have sk: "skip_ws (indent_nl (Suc lvl) @ 34 # r @ indent_nl lvl @ 125 # rest) =
          34 # r @ indent_nl lvl @ 125 # rest"
        by (rule skip_ws_indent) (simp add: is_ws_def)
      have "distinct (map fst ([] :: (pystr \<times> json) list) @ map (join_pairs \<circ> fst) kvs)"
        using 2 by simp
      then have "parse_members mn n' []
          (dumps_members nt (Suc lvl) kvs @ indent_nl lvl @ 125 # rest) =
          Some (JObj ([] @ joined_members kvs), rest)"
        using "2.IH" [OF rm] False len' by blast
      then show ?thesis
        using False sk by (simp add: n r)
    qed
  qed
next
  case (9 k v kvs)
  then have rd: "py_text k" "readable v" "readable_members kvs"
    by simp_all
  show ?case
  proof (intro allI impI)
    fix n lvl j rest and acc :: "(pystr \<times> json) list"
    assume len: "length (dumps_members nt lvl ((k, v) # kvs)) \<le> n"
      and dist: "distinct (map fst acc @ map (join_pairs \<circ> fst) ((k, v) # kvs))"
    define t where "t = (if kvs = [] then [] else [44] @ indent_nl lvl @ dumps_members nt lvl kvs) @
      indent_nl j @ 125 # rest"
    define vt where "vt = dumps_at nt lvl v"
    from len obtain n' where n: "n = Suc n'" and lenv: "length vt \<le> n'"
        and lenm: "length (dumps_members nt lvl kvs) \<le> n'"
      using length_encode_string [of k] by (cases n) (auto simp: vt_def split: if_splits)
    have shape: "dumps_members nt lvl ((k, v) # kvs) @ indent_nl j @ 125 # rest =
        34 # (concat (map escape_char k) @ 34 # 58 # 32 # vt @ t)"
      by (simp add: t_def vt_def encode_string_def)
    have key: "scanstring (concat (map escape_char k) @ 34 # 58 # 32 # vt @ t) =
        Some (join_pairs k, 58 # 32 # vt @ t)"
      using rd(1) by (rule scanstring_escaped)
    obtain c r where cr: "vt = c # r" "c = 34 \<or> c = 123"
      using dumps_at_head [OF rd(2)] unfolding vt_def by blast
    have skip: "skip_ws (32 # vt @ t) = vt @ t"
      using cr by (auto simp: skip_ws_def is_ws_def)
    have val: "scan_once mn n' (vt @ t) = Some (joined v, t)"
      using "9.IH"(1) [OF rd(2)] lenv unfolding vt_def by blast
    have fresh: "join_pairs k \<notin> fst ` set acc"
      using dist by auto
    have acc': "dict_set (join_pairs k) (joined v) acc = acc @ [(join_pairs k, joined v)]"
      using fresh by (rule dict_set_fresh)
    have step: "parse_members mn n acc (dumps_members nt lvl ((k, v) # kvs) @ indent_nl j @ 125 # rest) =
      (case skip_ws t of
         [] \<Rightarrow> None
       | d # s5 \<Rightarrow>
           (if d = 125 then Some (JObj (acc @ [(join_pairs k, joined v)]), s5)
            else if d = 44
              then parse_members mn n' (acc @ [(join_pairs k, joined v)]) (skip_ws s5)
            else None))"
      unfolding shape n parse_members_step [OF key skip val] acc' ..
    show "parse_members mn n acc (dumps_members nt lvl ((k, v) # kvs) @ indent_nl j @ 125 # rest) =
        Some (JObj (acc @ joined_members ((k, v) # kvs)), rest)"
    proof (cases "kvs = []")
      case True
      have "skip_ws t = 125 # rest"
        unfolding t_def using True by (simp add: skip_ws_indent is_ws_def)
      then show ?thesis
        unfolding step by (simp add: True)
    next
      case False
      obtain r2 where r2: "dumps_members nt lvl kvs = 34 # r2"
        using dumps_members_head [OF False] by blast
      have t: "t = 44 # (indent_nl lvl @ 34 # (r2 @ indent_nl j @ 125 # rest))"
        using False by (simp add: t_def r2)
      have s1: "skip_ws t = 44 # (indent_nl lvl @ 34 # (r2 @ indent_nl j @ 125 # rest))"
        unfolding t by (rule skip_ws_head) (simp add: is_ws_def)
      have s2: "skip_ws (indent_nl lvl @ 34 # (r2 @ indent_nl j @ 125 # rest)) =
          dumps_members nt lvl kvs @ indent_nl j @ 125 # rest"
        unfolding r2 by (simp add: skip_ws_indent is_ws_def)
      have "distinct (map fst (acc @ [(join_pairs k, joined v)]) @ map (join_pairs \<circ> fst) kvs)"
        using dist by simp
      then have "parse_members mn n' (acc @ [(join_pairs k, joined v)])
          (dumps_members nt lvl kvs @ indent_nl j @ 125 # rest) =
          Some (JObj ((acc @ [(join_pairs k, joined v)]) @ joined_members kvs), rest)"
        using "9.IH"(2) [OF rd(3)] False lenm by blast
      then show ?thesis
        unfolding step s1 by (simp add: s2)
    qed
  qed
qed simp_all

lemma join_pairs_no_pair: "no_pair s \<Longrightarrow> join_pairs s = s"
  by (induction s rule: join_pairs.induct) auto

lemma loads_dumps:
  assumes "readable v"
  shows "py_loads mn (py_dumps nt v) = Inr (joined v)"
proof -
  obtain c r where cr: "dumps_at nt 0 v = c # r" "c = 34 \<or> c = 123"
    using dumps_at_head [OF assms] by blast
  have sk: "skip_ws (dumps_at nt 0 v) = dumps_at nt 0 v"
    unfolding cr(1) using cr(2) by (intro skip_ws_head) (auto simp: is_ws_def)
  have "scan_once mn (Suc (length (dumps_at nt 0 v))) (dumps_at nt 0 v @ []) = Some (joined v, [])"
    using read_back(1) [OF assms, of nt mn] by (meson le_SucI order_refl)
  then have "scan_once mn (Suc (length (dumps_at nt 0 v))) (dumps_at nt 0 v) = Some (joined v, [])"
    by simp
  moreover have "\<not> prefix [65279] (dumps_at nt 0 v)"
    unfolding cr(1) using cr(2) by auto
  ultimately show ?thesis
    unfolding py_loads_def py_dumps_def sk by (simp add: skip_ws_def)
qed

lemma nested_readable:
  "nested n v \<Longrightarrow> pair_free v \<Longrightarrow> readable v \<and> joined v = v"
  "nested_members n kvs \<Longrightarrow> pair_free_members kvs \<Longrightarrow>
     readable_members kvs \<and> joined_members kvs = kvs \<and> map (join_pairs \<circ> fst) kvs = map fst kvs"
proof (induction n v and n kvs rule: nested_nested_members.induct)
  case (1 v)
  then show ?case
    by (cases v) (simp_all add: join_pairs_no_pair)
next
  case (2 n v)
  show ?case
  proof (cases v)
    case (JObj kvs)
    have d: "distinct (map fst kvs)" and a: "readable_members kvs"
      and b: "joined_members kvs = kvs"
      and c: "map (join_pairs \<circ> fst) kvs = map fst kvs"
      using 2 JObj by simp_all
    have "distinct (map (join_pairs \<circ> fst) kvs)"
      unfolding c by (rule d)
    then show ?thesis
      using a b by (simp add: JObj)
  qed (use 2 in simp_all)
next
  case (3 n)
  show ?case by simp
next
  case (4 n k v kvs)
  then show ?case
    by (simp add: join_pairs_no_pair)
qed


lemma load_after_save:
  "readable v \<Longrightarrow>
   fst (save_context (py_dumps nt) Written f v) = None \<and>
   load_context (py_loads mn) (snd (save_context (py_dumps nt) Written f v)) =
     Inr (joined v)"
  by (simp add: save_context_def load_context_def path_exists_def loads_dumps)

section \<open>Properties of the persisted context and of the snippet cache\<close>

text \<open>
  C4. When the backing file is missing, when it cannot be read, and when its text does not
  parse, \<^verbatim>\<open>_load_context\<close> returns the empty context
  \<^verbatim>\<open>{"snippets": {}, "file_summaries": {}}\<close>; it never raises.
\<close>

theorem load_context_failures:
  "(f = Missing \<longrightarrow> load_context json_loads f = Inr empty_context) \<and>
   (f = Holds t \<and> json_loads t = Inl e \<longrightarrow> load_context json_loads f = Inr empty_context) \<and>
   (read_text f = Inl e \<longrightarrow> load_context json_loads f = Inr empty_context) \<and>
   (\<exists>ctx. load_context json_loads f = Inr ctx) \<and>
   empty_context = JObj [(ascii ''snippets'', JObj []), (ascii ''file_summaries'', JObj [])]"
  by (cases f) (auto simp: load_context_def path_exists_def empty_context_def split: sum.splits)

theorem load_context_failures_witness:
  "load_context sample_loads Missing = Inr empty_context \<and>
   sample_loads (ascii ''not json'') = Inl JSONDecodeError \<and>
   load_context sample_loads (Holds (ascii ''not json'')) = Inr empty_context \<and>
   read_text Unreadable = Inl OSError \<and>
   load_context sample_loads Unreadable = Inr empty_context"
proof -
  have p: "sample_loads (ascii ''not json'') = Inl JSONDecodeError"
    by (simp add: sample_loads_def empty_context_text_def ascii_def)
  have r: "read_text Unreadable = Inl OSError"
    by simp
  show ?thesis
    using p r
      load_context_failures [of Missing sample_loads "ascii ''not json''" JSONDecodeError]
      load_context_failures [of "Holds (ascii ''not json'')" sample_loads "ascii ''not json''"
        JSONDecodeError]
      load_context_failures [of Unreadable sample_loads "ascii ''not json''" OSError]
    by simp
qed

text \<open>
  C6, as amended. For every document in which no string has a high surrogate directly
  followed by a low surrogate, when the write succeeds and the file gives back the text
  written, \<^verbatim>\<open>_save_context(doc)\<close> raises nothing and \<^verbatim>\<open>_load_context()\<close> then returns
  \<open>doc\<close>.
\<close>

theorem save_then_load:
  "document doc \<Longrightarrow> pair_free doc \<Longrightarrow>
   fst (save_context (py_dumps nt) Written f doc) = None \<and>
   load_context (py_loads mn) (snd (save_context (py_dumps nt) Written f doc)) = Inr doc"
proof -
  assume "document doc" and "pair_free doc"
  then have "readable doc \<and> joined doc = doc"
    unfolding document_def by (rule nested_readable(1))
  then show ?thesis
    using load_after_save [of doc nt f mn] by simp
qed

lemma document_sample: "document sample_document"
  by (simp add: document_def sample_document_def py_text_def ascii_def)

lemma pair_free_sample: "pair_free sample_document"
  by (simp add: sample_document_def ascii_def is_high_def is_low_def)

theorem save_then_load_witness:
  "document sample_document \<and> pair_free sample_document \<and>
   sample_document \<noteq> empty_context \<and>
   load_context (py_loads (\<lambda>s. None))
     (snd (save_context (py_dumps (\<lambda>v. [])) Written Missing sample_document)) =
     Inr sample_document"
proof -
  have "sample_document \<noteq> empty_context"
    by (simp add: sample_document_def empty_context_def)
  then show ?thesis
    using document_sample pair_free_sample
      save_then_load [OF document_sample pair_free_sample, of "\<lambda>v. []" Missing "\<lambda>s. None"]
    by simp
qed

text \<open>
  The claim C6 as it is written fails: the encoder writes a high surrogate and a low
  surrogate as two escapes, which is also how it writes one character above U+FFFF, and
  the scanner reads two such escapes as that one character. The document whose code is
  the two surrogates of U+1F600 is written as the text below and read back with the one
  character U+1F600 as its code.
\<close>

lemma hex4_high: "hex4 55357 = ascii ''d83d''"
  by (simp add: hex4_def hexdigit_def ascii_def)

lemma hex4_low: "hex4 56832 = ascii ''de00''"
  by (simp add: hex4_def hexdigit_def ascii_def)

lemma encode_split_pair: "encode_string [55357, 56832] = [34, 92] @ ascii ''ud83d'' @ [92] @ ascii ''ude00'' @ [34]"
  by (simp add: encode_string_def escape_char_def hex4_high hex4_low) (simp add: ascii_def)

lemma dumps_split_pair: "py_dumps nt split_pair_document = split_pair_text"
  unfolding py_dumps_def split_pair_document_def split_pair_text_def
  by (simp add: encode_split_pair indent_nl_def)
    (simp add: encode_string_def escape_char_def ascii_def numeral_eq_Suc)

lemma document_split_pair: "document split_pair_document"
  by (simp add: document_def split_pair_document_def py_text_def ascii_def)

lemma readable_split_pair: "readable split_pair_document"
  by (simp add: split_pair_document_def py_text_def ascii_def is_high_def is_low_def)

lemma joined_split_pair: "joined split_pair_document = joined_pair_document"
  by (simp add: split_pair_document_def joined_pair_document_def ascii_def is_high_def
      is_low_def join_surrogates_def)

theorem surrogate_pair_not_read_back:
  "document split_pair_document \<and>
   (\<forall>nt. py_dumps nt split_pair_document = split_pair_text) \<and>
   (\<forall>nt mn. load_context (py_loads mn)
      (snd (save_context (py_dumps nt) Written Missing split_pair_document)) =
      Inr joined_pair_document) \<and>
   joined_pair_document \<noteq> split_pair_document"
proof -
  have "joined_pair_document \<noteq> split_pair_document"
    by (simp add: split_pair_document_def joined_pair_document_def)
  then show ?thesis
    using document_split_pair load_after_save [OF readable_split_pair] dumps_split_pair
    by (simp add: joined_split_pair)
qed

text \<open>
  C5. After \<^verbatim>\<open>cache_snippet(k, v)\<close>, \<^verbatim>\<open>get_cached_snippet(k)\<close> returns \<open>v\<close>, whatever the
  file system did during the save (also when \<^verbatim>\<open>open\<close> or \<^verbatim>\<open>json.dump\<close> raised and the
  exception was swallowed) and whatever the loaded context is: the in-memory cache is
  written first and read first.
\<close>

theorem put_then_get:
  "get_cached_snippet (snd (cache_snippet json_dumps io now st k v)) k = Inr (JStr v)"
  by (simp add: cache_snippet_def get_cached_snippet_def Let_def split: prod.splits option.splits)

theorem put_then_get_witness:
  "fst (cache_snippet sample_dumps OpenRaises (ascii ''2024-01-01 00:00:00'') st0
      (ascii ''# add'') (ascii ''x = 1'')) = None \<and>
   context_file (snd (cache_snippet sample_dumps OpenRaises (ascii ''2024-01-01 00:00:00'') st0
      (ascii ''# add'') (ascii ''x = 1''))) = Missing \<and>
   get_cached_snippet (snd (cache_snippet sample_dumps OpenRaises
      (ascii ''2024-01-01 00:00:00'') st0 (ascii ''# add'') (ascii ''x = 1'')))
      (ascii ''# add'') = Inr (JStr (ascii ''x = 1''))"
proof -
  have "table_store (ascii ''snippets'') k e empty_context =
      (JObj [(ascii ''snippets'', JObj [(k, e)]), (ascii ''file_summaries'', JObj [])], None)"
    for k e
    by (simp add: table_store_def setdefault_def setitem_def empty_context_def)
  then have "fst (cache_snippet sample_dumps OpenRaises now st0 k v) = None \<and>
      context_file (snd (cache_snippet sample_dumps OpenRaises now st0 k v)) = Missing"
    for now k v
    by (simp add: cache_snippet_def st0_def save_context_def Let_def)
  then show ?thesis
    using put_then_get [of sample_dumps OpenRaises "ascii ''2024-01-01 00:00:00''" st0
        "ascii ''# add''" "ascii ''x = 1''"]
    by simp
qed

lemma map_of_dict_set:
  "map_of (dict_set k v kvs) k' = (if k' = k then Some v else map_of kvs k')"
  by (induction kvs) auto

lemma table_store_other:
  "k' \<noteq> name \<Longrightarrow> dict_get k' dflt (fst (table_store name k v d)) = dict_get k' dflt d"
  by (cases d)
    (auto simp: table_store_def setdefault_def setitem_def dict_get_def map_of_dict_set
      split: option.splits json.splits)

lemma cache_snippet_state:
  "disk_context (snd (cache_snippet json_dumps io now st comment code)) =
     fst (table_store (ascii ''snippets'') comment
       (JObj [(ascii ''code'', JStr code), (ascii ''timestamp'', JStr now)]) (disk_context st))"
  "turn_history (snd (cache_snippet json_dumps io now st comment code)) = turn_history st"
  by (simp_all add: cache_snippet_def Let_def split: prod.splits option.splits)

lemma store_file_summary_state:
  "disk_context (snd (store_file_summary json_dumps io now st filepath summary)) =
     fst (table_store (ascii ''file_summaries'') filepath
       (JObj [(ascii ''summary'', JStr summary), (ascii ''timestamp'', JStr now)])
       (disk_context st))"
  "turn_history (snd (store_file_summary json_dumps io now st filepath summary)) =
     turn_history st"
  "snippet_cache (snd (store_file_summary json_dumps io now st filepath summary)) =
     snippet_cache st"
  by (simp_all add: store_file_summary_def Let_def split: prod.splits option.splits)

text \<open>
  C10. \<^verbatim>\<open>cache_snippet\<close> leaves the file summaries of the context and the turn log as
  they were; \<^verbatim>\<open>store_file_summary\<close> leaves the in-memory snippet cache, the snippets of
  the context and the turn log as they were. The tables are compared as the program
  reads them, with \<^verbatim>\<open>_disk_context.get(name, {})\<close>.
\<close>

theorem writes_are_framed:
  "(let st' = snd (cache_snippet json_dumps io now st comment code)
    in file_summaries_of (disk_context st') = file_summaries_of (disk_context st) \<and>
       turn_history st' = turn_history st) \<and>
   (let st' = snd (store_file_summary json_dumps io now st filepath summary)
    in snippet_cache st' = snippet_cache st \<and>
       snippets_of (disk_context st') = snippets_of (disk_context st) \<and>
       turn_history st' = turn_history st)"
proof -
  have ne: "ascii ''file_summaries'' \<noteq> ascii ''snippets''"
    by (simp add: ascii_def)
  have a: "file_summaries_of (fst (table_store (ascii ''snippets'') comment e d)) =
      file_summaries_of d" for e d
    unfolding file_summaries_of_def using ne by (rule table_store_other)
  have b: "snippets_of (fst (table_store (ascii ''file_summaries'') filepath e d)) =
      snippets_of d" for e d
    unfolding snippets_of_def using ne [symmetric] by (rule table_store_other)
  show ?thesis
    unfolding Let_def cache_snippet_state store_file_summary_state a b by simp
qed

theorem writes_are_framed_witness:
  "file_summaries_of (disk_context (snd (cache_snippet sample_dumps Written
      (ascii ''2024-01-01 00:00:00'') st0 (ascii ''# add'') (ascii ''x = 1'')))) =
     Inr (JObj []) \<and>
   turn_history (snd (cache_snippet sample_dumps Written
      (ascii ''2024-01-01 00:00:00'') st0 (ascii ''# add'') (ascii ''x = 1''))) = [] \<and>
   snippets_of (disk_context (snd (store_file_summary sample_dumps Written
      (ascii ''2024-01-01 00:00:00'') st0 (ascii ''a.py'') (ascii ''adds'')))) =
     Inr (JObj []) \<and>
   snippet_cache (snd (store_file_summary sample_dumps Written
      (ascii ''2024-01-01 00:00:00'') st0 (ascii ''a.py'') (ascii ''adds''))) = Map.empty"
proof -
  have "file_summaries_of (disk_context st0) = Inr (JObj [])"
    by (simp add: st0_def empty_context_def file_summaries_of_def dict_get_def ascii_def)
  moreover have "snippets_of (disk_context st0) = Inr (JObj [])"
    by (simp add: st0_def empty_context_def snippets_of_def dict_get_def)
  moreover have "turn_history st0 = []" "snippet_cache st0 = Map.empty"
    by (simp_all add: st0_def)
  ultimately show ?thesis
    using writes_are_framed [of sample_dumps Written "ascii ''2024-01-01 00:00:00''" st0
        "ascii ''# add''" "ascii ''x = 1''" "ascii ''a.py''" "ascii ''adds''"]
    by (simp add: Let_def)
qed

end
